theory Spec2Isabelle
  imports Main "HOL-Library.Word"
begin

section \<open>Data model of checkers.cpp\<close>

text \<open>
  The constants of the source. The board is an array of
  \<open>BOARD_HEIGHT / CELL_SIZE\<close> rows of \<open>BOARD_WIDTH / CELL_SIZE\<close> cells.
\<close>

definition BOARD_WIDTH :: int where "BOARD_WIDTH = 600"
definition BOARD_HEIGHT :: int where "BOARD_HEIGHT = 600"
definition CELL_SIZE :: int where "CELL_SIZE = 75"
definition MAX_VALID_MOVES :: int where "MAX_VALID_MOVES = 12"

datatype PieceType = NONE | REGULAR | KING
datatype Player = PLAYER1 | PLAYER2

record Piece =
  type :: PieceType
  player :: Player
  isKing :: bool

text \<open>
  A \<open>Position\<close> is the pair \<open>(x, y)\<close>: column first, row second. The coordinates and
  the candidate count of the source are integers here: a coordinate stays within two cells
  of the board and the count within the capacity of the array, so that no operation on them
  comes near the limits of a machine \<open>int\<close>. The two scores are different: the source
  increments them with no test, so they are 32-bit values, and \<open>+\<close> on them wraps around
  as the increment of the compiled program does at the largest \<open>int\<close>; \<open>sint\<close> reads
  such a value as the signed number the program sees.
\<close>

type_synonym Position = "int \<times> int"

type_synonym int32 = "32 word"

text \<open>
  The board is indexed as in the source, row first: \<open>board gs y x\<close> is
  \<open>gameState.board[y][x]\<close>. Arrays are functions from the index; the model reads and
  writes them only at indices it has checked to be in range, and an access of the source at
  an index that is out of range (undefined behaviour in C++) is the error \<open>OutOfBounds\<close>.
\<close>

type_synonym Board = "int \<Rightarrow> int \<Rightarrow> Piece"

record GameState =
  board :: Board
  currentPlayer :: Player
  player1Score :: int32
  player2Score :: int32
  pieceSelected :: bool
  selectedX :: int
  selectedY :: int
  validMoves :: "int \<Rightarrow> Position"
  validMoveCount :: int
  isCapturing :: bool

datatype error = OutOfBounds

definition in_bounds :: "int \<Rightarrow> int \<Rightarrow> bool" where
  "in_bounds x y \<longleftrightarrow>
     x \<ge> 0 \<and> x < BOARD_WIDTH div CELL_SIZE \<and> y \<ge> 0 \<and> y < BOARD_HEIGHT div CELL_SIZE"

text \<open>Writing one cell of the board: \<open>gameState.board[y][x] = p\<close>.\<close>

definition set_cell :: "Board \<Rightarrow> int \<Rightarrow> int \<Rightarrow> Piece \<Rightarrow> Board" where
  "set_cell b x y p = b(y := (b y)(x := p))"

text \<open>The candidate list: the first \<open>validMoveCount\<close> entries of \<open>validMoves\<close>.\<close>

definition candidates :: "GameState \<Rightarrow> Position list" where
  "candidates gs = map (\<lambda>i. validMoves gs (int i)) [0..<nat (validMoveCount gs)]"

section \<open>InitializeGame\<close>

text \<open>
  What the loop body of \<open>InitializeGame\<close> leaves in the cell \<open>(x, y)\<close>: \<open>type\<close> and
  \<open>isKing\<close> are reset, and the dark cells of the first and the last three rows get a man.
  The \<open>player\<close> field of a cell that stays empty is not written.
\<close>

definition init_cell :: "Piece \<Rightarrow> int \<Rightarrow> int \<Rightarrow> Piece" where
  "init_cell old x y =
     (let player1Rows = 3; player2Rows = 3;
          c = old\<lparr>type := NONE, isKing := False\<rparr>
      in if (x + y) mod 2 \<noteq> 0 \<and> y < player1Rows then c\<lparr>type := REGULAR, player := PLAYER1\<rparr>
         else if (x + y) mod 2 \<noteq> 0 \<and> y \<ge> BOARD_HEIGHT div CELL_SIZE - player2Rows
         then c\<lparr>type := REGULAR, player := PLAYER2\<rparr>
         else c)"

text \<open>
  \<open>InitializeGame\<close> writes the board, the current player, the scores and the selection;
  \<open>validMoves\<close>, \<open>validMoveCount\<close> and \<open>isCapturing\<close> keep what they held.
\<close>

definition InitializeGame :: "GameState \<Rightarrow> GameState" where
  "InitializeGame gs =
     gs\<lparr>board := (\<lambda>y x. if in_bounds x y then init_cell (board gs y x) x y else board gs y x),
        currentPlayer := PLAYER1, player1Score := 0, player2Score := 0,
        pieceSelected := False, selectedX := -1, selectedY := -1\<rparr>"

section \<open>SwitchTurn, PromoteToKing\<close>

definition opponent :: "Player \<Rightarrow> Player" where
  "opponent p = (if p = PLAYER1 then PLAYER2 else PLAYER1)"

definition SwitchTurn :: "GameState \<Rightarrow> GameState" where
  "SwitchTurn gs = gs\<lparr>currentPlayer := (if currentPlayer gs = PLAYER1 then PLAYER2 else PLAYER1)\<rparr>"

text \<open>
  \<open>PromoteToKing\<close> tests the current player and the row only; it writes the cell
  \<open>board[y][x]\<close> whatever the cell holds.
\<close>

definition PromoteToKing :: "GameState \<Rightarrow> int \<Rightarrow> int \<Rightarrow> error + GameState" where
  "PromoteToKing gs x y =
     (if currentPlayer gs = PLAYER1 \<and> y = BOARD_HEIGHT div CELL_SIZE - 1 then
        (if in_bounds x y
         then Inr (gs\<lparr>board := set_cell (board gs) x y ((board gs y x)\<lparr>isKing := True, type := KING\<rparr>)\<rparr>)
         else Inl OutOfBounds)
      else if currentPlayer gs = PLAYER2 \<and> y = 0 then
        (if in_bounds x y
         then Inr (gs\<lparr>board := set_cell (board gs) x y ((board gs y x)\<lparr>isKing := True, type := KING\<rparr>)\<rparr>)
         else Inl OutOfBounds)
      else Inr gs)"

section \<open>FindValidMoves\<close>

text \<open>
  The four rows of the \<open>directions\<close> array, named as the comments of the source name
  them, with their \<open>dx\<close> (column 0) and \<open>dy\<close> (column 1).
\<close>

datatype Direction = DownRight | DownLeft | UpRight | UpLeft

fun dir_dx :: "Direction \<Rightarrow> int" where
  "dir_dx DownRight = 1"
| "dir_dx DownLeft = -1"
| "dir_dx UpRight = 1"
| "dir_dx UpLeft = -1"

fun dir_dy :: "Direction \<Rightarrow> int" where
  "dir_dy DownRight = 1"
| "dir_dy DownLeft = 1"
| "dir_dy UpRight = -1"
| "dir_dy UpLeft = -1"

text \<open>
  The guarded append that the source repeats at each of its four write sites:
  \<open>if (validMoveCount < MAX_VALID_MOVES) { validMoves[validMoveCount] = (newX, newY);
  validMoveCount++; }\<close>.
\<close>

definition add_move :: "GameState \<Rightarrow> int \<Rightarrow> int \<Rightarrow> GameState" where
  "add_move gs newX newY =
     (if validMoveCount gs < MAX_VALID_MOVES
      then gs\<lparr>validMoves := (validMoves gs)(validMoveCount gs := (newX, newY)),
              validMoveCount := validMoveCount gs + 1\<rparr>
      else gs)"

text \<open>
  The \<open>while (true)\<close> scan of one direction for a king. The arguments \<open>newX\<close>,
  \<open>newY\<close> are the values at the head of the loop body, before the increment; the result
  is the state and the flag \<open>captureAvailable\<close>.
\<close>

function king_scan ::
  "GameState \<Rightarrow> Piece \<Rightarrow> Direction \<Rightarrow> bool \<Rightarrow> int \<Rightarrow> int \<Rightarrow> bool \<Rightarrow> bool \<Rightarrow> GameState \<times> bool" where
  "king_scan gs piece d isAfterCapture newX0 newY0 opponentPieceFound captureAvailable =
     (let newX = newX0 + dir_dx d; newY = newY0 + dir_dy d in
      if \<not> in_bounds newX newY then (gs, captureAvailable)
      else if type (board gs newY newX) = NONE then
        (if opponentPieceFound then
           (if validMoveCount gs < MAX_VALID_MOVES
            then (add_move gs newX newY, True)
            else (gs, captureAvailable))
         else if \<not> isAfterCapture then
           king_scan (add_move gs newX newY) piece d isAfterCapture newX newY
             opponentPieceFound captureAvailable
         else
           king_scan gs piece d isAfterCapture newX newY opponentPieceFound captureAvailable)
      else if player (board gs newY newX) \<noteq> player piece then
        (if \<not> opponentPieceFound
         then king_scan gs piece d isAfterCapture newX newY True captureAvailable
         else (gs, captureAvailable))
      else (gs, captureAvailable))"
  by pat_completeness auto

termination
proof (relation "measure (\<lambda>(gs, piece, d, a, newX0, newY0, f, c).
                   nat (if dir_dx d = 1 then 8 - newX0 else newX0 + 1))")
  have neg: "dir_dx d = -1" if "dir_dx d \<noteq> 1" for d
    using that by (cases d) simp_all
  fix gs :: GameState and piece :: Piece and d :: Direction and a :: bool
    and newX0 newY0 newX newY :: int and f c :: bool
  assume step: "newX = newX0 + dir_dx d" and inb: "\<not> \<not> in_bounds newX newY"
  have dec: "nat (if dir_dx d = 1 then 8 - newX else newX + 1)
             < nat (if dir_dx d = 1 then 8 - newX0 else newX0 + 1)"
    using step inb neg [of d]
    by (auto simp: in_bounds_def BOARD_WIDTH_def CELL_SIZE_def)
  show "((add_move gs newX newY, piece, d, a, newX, newY, f, c),
         gs, piece, d, a, newX0, newY0, f, c)
        \<in> measure (\<lambda>(gs, piece, d, a, newX0, newY0, f, c).
                     nat (if dir_dx d = 1 then 8 - newX0 else newX0 + 1))"
    using dec by simp
  show "((gs, piece, d, a, newX, newY, f, c), gs, piece, d, a, newX0, newY0, f, c)
        \<in> measure (\<lambda>(gs, piece, d, a, newX0, newY0, f, c).
                     nat (if dir_dx d = 1 then 8 - newX0 else newX0 + 1))"
    using dec by simp
  show "((gs, piece, d, a, newX, newY, True, c), gs, piece, d, a, newX0, newY0, f, c)
        \<in> measure (\<lambda>(gs, piece, d, a, newX0, newY0, f, c).
                     nat (if dir_dx d = 1 then 8 - newX0 else newX0 + 1))"
    using dec by simp
qed simp

declare king_scan.simps [simp del]

text \<open>The body of the \<open>for\<close> loop over the two forward directions of a man.\<close>

definition man_step :: "GameState \<Rightarrow> Piece \<Rightarrow> Direction \<Rightarrow> bool \<Rightarrow> int \<Rightarrow> int \<Rightarrow> GameState" where
  "man_step gs piece d isAfterCapture x y =
     (let dx = dir_dx d; dy = dir_dy d; newX = x + dx; newY = y + dy in
      if in_bounds newX newY then
        (let gs1 = (if type (board gs newY newX) = NONE \<and> \<not> isAfterCapture
                    then add_move gs newX newY else gs);
             captureX = x + 2 * dx; captureY = y + 2 * dy
         in if in_bounds captureX captureY then
              (if type (board gs1 captureY captureX) = NONE \<and>
                  type (board gs1 newY newX) \<noteq> NONE \<and>
                  player (board gs1 newY newX) \<noteq> player piece
               then add_move gs1 captureX captureY else gs1)
            else gs1)
      else gs)"

text \<open>The two rows of \<open>directions\<close> that the source fills in for a man of each player.\<close>

definition man_directions :: "Player \<Rightarrow> Direction list" where
  "man_directions p = (if p = PLAYER1 then [DownRight, DownLeft] else [UpRight, UpLeft])"

text \<open>
  \<open>FindValidMoves\<close>. The source reads \<open>board[y][x]\<close> without a test of \<open>x\<close> and \<open>y\<close>,
  and it branches on \<open>piece.isKing\<close> without a test of \<open>piece.type\<close>.
\<close>

definition FindValidMoves :: "GameState \<Rightarrow> int \<Rightarrow> int \<Rightarrow> bool \<Rightarrow> error + GameState" where
  "FindValidMoves gs x y isAfterCapture =
     (let gs0 = gs\<lparr>validMoveCount := 0\<rparr> in
      if \<not> in_bounds x y then Inl OutOfBounds
      else
        (let piece = board gs0 y x in
         if isKing piece then
           (let (gs1, captureAvailable) =
                  fold (\<lambda>d (g, ca). king_scan g piece d isAfterCapture x y False ca)
                    [DownRight, DownLeft, UpRight, UpLeft] (gs0, False)
            in if isAfterCapture \<and> \<not> captureAvailable
               then Inr (gs1\<lparr>validMoveCount := 0\<rparr>)
               else Inr gs1)
         else
           Inr (fold (\<lambda>d g. man_step g piece d isAfterCapture x y)
                  (man_directions (player piece)) gs0)))"

text \<open>The candidate list that a call of \<open>FindValidMoves\<close> leaves in the state.\<close>

definition generate :: "GameState \<Rightarrow> int \<Rightarrow> int \<Rightarrow> bool \<Rightarrow> error + Position list" where
  "generate gs x y isAfterCapture =
     (case FindValidMoves gs x y isAfterCapture of
        Inl e \<Rightarrow> Inl e
      | Inr gs' \<Rightarrow> Inr (candidates gs'))"

section \<open>IsValidMove\<close>

text \<open>
  The loop of \<open>IsValidMove\<close> from index \<open>i\<close> on. It reads \<open>validMoves[i]\<close> for every
  \<open>i < validMoveCount\<close> until a match; the array has \<open>MAX_VALID_MOVES\<close> entries.
\<close>

function IsValidMove_from :: "GameState \<Rightarrow> int \<Rightarrow> int \<Rightarrow> int \<Rightarrow> error + bool" where
  "IsValidMove_from gs endX endY i =
     (if i < validMoveCount gs then
        (if i < 0 \<or> i \<ge> MAX_VALID_MOVES then Inl OutOfBounds
         else if fst (validMoves gs i) = endX \<and> snd (validMoves gs i) = endY then Inr True
         else IsValidMove_from gs endX endY (i + 1))
      else Inr False)"
  by pat_completeness auto
termination
  by (relation "measure (\<lambda>(gs, endX, endY, i). nat (validMoveCount gs - i))") auto

declare IsValidMove_from.simps [simp del]

definition IsValidMove :: "GameState \<Rightarrow> int \<Rightarrow> int \<Rightarrow> int \<Rightarrow> int \<Rightarrow> error + bool" where
  "IsValidMove gs startX startY endX endY = IsValidMove_from gs endX endY 0"

section \<open>HandleInput\<close>

text \<open>Clearing a cell writes its \<open>type\<close> field only: \<open>board[cy][cx].type = NONE\<close>.\<close>

definition remove_piece :: "GameState \<Rightarrow> int \<Rightarrow> int \<Rightarrow> GameState" where
  "remove_piece gs cx cy =
     gs\<lparr>board := set_cell (board gs) cx cy ((board gs cy cx)\<lparr>type := NONE\<rparr>)\<rparr>"

text \<open>
  The block commented \<open>Update scores\<close>, which the source has twice:
  \<open>player1Score++\<close> or \<open>player2Score++\<close> on a 32-bit \<open>int\<close>, with no test of the
  value.
\<close>

definition add_score :: "GameState \<Rightarrow> GameState" where
  "add_score gs =
     (if currentPlayer gs = PLAYER1 then gs\<lparr>player1Score := player1Score gs + 1\<rparr>
      else gs\<lparr>player2Score := player2Score gs + 1\<rparr>)"

text \<open>
  The loop \<open>while (captureX != x && captureY != y)\<close> of the king's capture. \<open>dx\<close> and
  \<open>dy\<close> are fixed before the loop from the selected cell, which the loop does not
  change. The result is the state and the flag \<open>captureAllowed\<close>.
\<close>

function capture_scan :: "GameState \<Rightarrow> int \<Rightarrow> int \<Rightarrow> int \<Rightarrow> int \<Rightarrow> error + GameState \<times> bool" where
  "capture_scan gs x y captureX captureY =
     (let dx = (if x > selectedX gs then 1 else -1);
          dy = (if y > selectedY gs then 1 else -1)
      in if captureX \<noteq> x \<and> captureY \<noteq> y then
           (if \<not> in_bounds captureX captureY then Inl OutOfBounds
            else if type (board gs captureY captureX) \<noteq> NONE \<and>
                    player (board gs captureY captureX) \<noteq> currentPlayer gs
            then Inr (add_score (remove_piece gs captureX captureY), True)
            else capture_scan gs x y (captureX + dx) (captureY + dy))
         else Inr (gs, False))"
  by pat_completeness auto
termination
  by (relation "measure (\<lambda>(gs, x, y, captureX, captureY).
                   nat (if x > selectedX gs then 8 - captureX else captureX + 1))")
     (auto simp: in_bounds_def BOARD_WIDTH_def CELL_SIZE_def)

declare capture_scan.simps [simp del]

text \<open>
  The nested loops that look for an additional capture after a king's capture:
  \<open>directionX\<close> runs over \<open>-1, 1\<close> and \<open>directionY\<close> over \<open>1, -1\<close>.
\<close>

definition additional_capture_possible :: "GameState \<Rightarrow> int \<Rightarrow> int \<Rightarrow> bool" where
  "additional_capture_possible gs x y =
     list_ex (\<lambda>(directionX, directionY).
        (let nextX = x + directionX * 2; nextY = y + directionY * 2 in
         in_bounds nextX nextY \<and>
         type (board gs nextY nextX) = NONE \<and>
         player (board gs (y + directionY) (x + directionX)) \<noteq> currentPlayer gs \<and>
         type (board gs (y + directionY) (x + directionX)) \<noteq> NONE))
       [(-1, 1), (-1, -1), (1, 1), (1, -1)]"

text \<open>
  The block \<open>if (isCapture) { ... }\<close>: the result is the state and the final value of
  \<open>isCapture\<close>. Both cells are in range where it is called, so the sums are not negative
  and the division of C++ is \<open>div\<close>.
\<close>

definition resolve_capture :: "GameState \<Rightarrow> int \<Rightarrow> int \<Rightarrow> error + GameState \<times> bool" where
  "resolve_capture gs x y =
     (let sx = selectedX gs; sy = selectedY gs;
          isCapture = (\<bar>sx - x\<bar> > 1 \<and> \<bar>sy - y\<bar> > 1)
      in if isCapture then
           (if isKing (board gs sy sx) then
              (let dx = (if x > sx then 1 else -1); dy = (if y > sy then 1 else -1)
               in case capture_scan gs x y (sx + dx) (sy + dy) of
                    Inl e \<Rightarrow> Inl e
                  | Inr (gs1, captureAllowed) \<Rightarrow>
                      Inr (gs1\<lparr>isCapturing := True\<rparr>,
                           captureAllowed \<and> additional_capture_possible gs1 x y))
            else
              (let capturedX = (sx + x) div 2; capturedY = (sy + y) div 2
               in Inr ((add_score (remove_piece gs capturedX capturedY))\<lparr>isCapturing := True\<rparr>,
                       True)))
         else Inr (gs, False))"

text \<open>
  \<open>destinationPiece = movingPiece; movingPiece.type = NONE;\<close> where both are references
  into the board: the second write reads the board after the first.
\<close>

definition move_piece :: "GameState \<Rightarrow> int \<Rightarrow> int \<Rightarrow> GameState" where
  "move_piece gs x y =
     (let sx = selectedX gs; sy = selectedY gs;
          b1 = set_cell (board gs) x y (board gs sy sx);
          b2 = set_cell b1 sx sy ((b1 sy sx)\<lparr>type := NONE\<rparr>)
      in gs\<lparr>board := b2\<rparr>)"

text \<open>The four statements that end a turn, which the source has twice.\<close>

definition end_turn :: "GameState \<Rightarrow> GameState" where
  "end_turn gs = SwitchTurn (gs\<lparr>pieceSelected := False, validMoveCount := 0, isCapturing := False\<rparr>)"

text \<open>The branch of \<open>HandleInput\<close> that moves the selected piece to \<open>(x, y)\<close>.\<close>

definition apply_move :: "GameState \<Rightarrow> int \<Rightarrow> int \<Rightarrow> error + GameState" where
  "apply_move gs x y =
     (if \<not> in_bounds (selectedX gs) (selectedY gs) \<or> \<not> in_bounds x y then Inl OutOfBounds
      else case resolve_capture gs x y of
        Inl e \<Rightarrow> Inl e
      | Inr (gs1, isCapture) \<Rightarrow>
          (let gs2 = move_piece gs1 x y;
               wasKing = isKing (board gs2 (selectedY gs2) (selectedX gs2))
           in case PromoteToKing gs2 x y of
                Inl e \<Rightarrow> Inl e
              | Inr gs3 \<Rightarrow>
                  if \<not> wasKing \<and> isKing (board gs3 y x) then Inr (end_turn gs3)
                  else (case FindValidMoves gs3 x y True of
                          Inl e \<Rightarrow> Inl e
                        | Inr gs4 \<Rightarrow>
                            if isCapture \<and> validMoveCount gs4 > 0
                            then Inr (gs4\<lparr>pieceSelected := True, selectedX := x, selectedY := y\<rparr>)
                            else Inr (end_turn gs4))))"

text \<open>
  \<open>HandleInput\<close>: \<open>pressed\<close> is \<open>IsMouseButtonPressed(MOUSE_LEFT_BUTTON)\<close> and
  \<open>x\<close>, \<open>y\<close> are the board coordinates of the mouse. With a piece selected and no
  capture sequence going on, the source reads \<open>board[y][x]\<close> without a test of \<open>x\<close> and
  \<open>y\<close>.
\<close>

definition HandleInput :: "GameState \<Rightarrow> bool \<Rightarrow> int \<Rightarrow> int \<Rightarrow> error + GameState" where
  "HandleInput gs pressed x y =
     (if \<not> pressed then Inr gs
      else if \<not> pieceSelected gs then
        (if \<not> isCapturing gs then
           (if in_bounds x y \<and> type (board gs y x) \<noteq> NONE \<and>
               player (board gs y x) = currentPlayer gs
            then FindValidMoves (gs\<lparr>pieceSelected := True, selectedX := x, selectedY := y\<rparr>) x y False
            else Inr gs)
         else Inr gs)
      else if \<not> isCapturing gs \<and> \<not> in_bounds x y then Inl OutOfBounds
      else if \<not> isCapturing gs \<and> type (board gs y x) \<noteq> NONE \<and>
              player (board gs y x) = currentPlayer gs
      then FindValidMoves (gs\<lparr>pieceSelected := True, selectedX := x, selectedY := y\<rparr>) x y False
      else case IsValidMove gs (selectedX gs) (selectedY gs) x y of
        Inl e \<Rightarrow> Inl e
      | Inr valid \<Rightarrow>
          if valid then apply_move gs x y
          else if isCapturing gs then Inr gs
          else Inr (gs\<lparr>pieceSelected := False, validMoveCount := 0\<rparr>))"

section \<open>CheckGameOver\<close>

text \<open>
  The tests of \<open>CheckGameOver\<close>, named by their comments in the source. A capture test
  compares the \<open>player\<close> field of the neighbour with the opponent and does not read the
  neighbour's \<open>type\<close>.
\<close>

definition move_bottom_right :: "Board \<Rightarrow> int \<Rightarrow> int \<Rightarrow> bool" where
  "move_bottom_right b x y \<longleftrightarrow>
     y + 1 < BOARD_HEIGHT div CELL_SIZE \<and> x + 1 < BOARD_WIDTH div CELL_SIZE \<and>
     type (b (y + 1) (x + 1)) = NONE"

definition move_bottom_left :: "Board \<Rightarrow> int \<Rightarrow> int \<Rightarrow> bool" where
  "move_bottom_left b x y \<longleftrightarrow>
     y + 1 < BOARD_HEIGHT div CELL_SIZE \<and> x - 1 \<ge> 0 \<and> type (b (y + 1) (x - 1)) = NONE"

definition move_top_right :: "Board \<Rightarrow> int \<Rightarrow> int \<Rightarrow> bool" where
  "move_top_right b x y \<longleftrightarrow>
     y - 1 \<ge> 0 \<and> x + 1 < BOARD_WIDTH div CELL_SIZE \<and> type (b (y - 1) (x + 1)) = NONE"

definition move_top_left :: "Board \<Rightarrow> int \<Rightarrow> int \<Rightarrow> bool" where
  "move_top_left b x y \<longleftrightarrow> y - 1 \<ge> 0 \<and> x - 1 \<ge> 0 \<and> type (b (y - 1) (x - 1)) = NONE"

definition capture_bottom_right :: "Board \<Rightarrow> Player \<Rightarrow> int \<Rightarrow> int \<Rightarrow> bool" where
  "capture_bottom_right b opp x y \<longleftrightarrow>
     y + 2 < BOARD_HEIGHT div CELL_SIZE \<and> x + 2 < BOARD_WIDTH div CELL_SIZE \<and>
     player (b (y + 1) (x + 1)) = opp \<and> type (b (y + 2) (x + 2)) = NONE"

definition capture_bottom_left :: "Board \<Rightarrow> Player \<Rightarrow> int \<Rightarrow> int \<Rightarrow> bool" where
  "capture_bottom_left b opp x y \<longleftrightarrow>
     y + 2 < BOARD_HEIGHT div CELL_SIZE \<and> x - 2 \<ge> 0 \<and>
     player (b (y + 1) (x - 1)) = opp \<and> type (b (y + 2) (x - 2)) = NONE"

definition capture_top_right :: "Board \<Rightarrow> Player \<Rightarrow> int \<Rightarrow> int \<Rightarrow> bool" where
  "capture_top_right b opp x y \<longleftrightarrow>
     y - 2 \<ge> 0 \<and> x + 2 < BOARD_WIDTH div CELL_SIZE \<and>
     player (b (y - 1) (x + 1)) = opp \<and> type (b (y - 2) (x + 2)) = NONE"

definition capture_top_left :: "Board \<Rightarrow> Player \<Rightarrow> int \<Rightarrow> int \<Rightarrow> bool" where
  "capture_top_left b opp x y \<longleftrightarrow>
     y - 2 \<ge> 0 \<and> x - 2 \<ge> 0 \<and>
     player (b (y - 1) (x - 1)) = opp \<and> type (b (y - 2) (x - 2)) = NONE"

text \<open>The tests in the \<open>KING\<close> block, the same for both players up to the opponent.\<close>

definition king_moves :: "Board \<Rightarrow> Player \<Rightarrow> int \<Rightarrow> int \<Rightarrow> bool" where
  "king_moves b opp x y \<longleftrightarrow>
     (move_bottom_right b x y \<or> move_bottom_left b x y \<or>
      move_top_right b x y \<or> move_top_left b x y) \<or>
     (capture_bottom_right b opp x y \<or> capture_bottom_left b opp x y \<or>
      capture_top_right b opp x y \<or> capture_top_left b opp x y)"

text \<open>What the body of \<open>if (!player1HasMoves)\<close> assigns to \<open>player1HasMoves\<close>.\<close>

definition player1_moves :: "Board \<Rightarrow> int \<Rightarrow> int \<Rightarrow> bool" where
  "player1_moves b x y \<longleftrightarrow>
     (move_bottom_right b x y \<or> move_bottom_left b x y) \<or>
     (capture_bottom_right b PLAYER2 x y \<or> capture_bottom_left b PLAYER2 x y) \<or>
     (type (b y x) = KING \<and> king_moves b PLAYER2 x y)"

definition player2_moves :: "Board \<Rightarrow> int \<Rightarrow> int \<Rightarrow> bool" where
  "player2_moves b x y \<longleftrightarrow>
     (move_top_right b x y \<or> move_top_left b x y) \<or>
     (capture_top_right b PLAYER1 x y \<or> capture_top_left b PLAYER1 x y) \<or>
     (type (b y x) = KING \<and> king_moves b PLAYER1 x y)"

text \<open>
  The body of the two nested loops for the cell \<open>(x, y)\<close>, on the four local variables
  \<open>player1Pieces\<close>, \<open>player2Pieces\<close>, \<open>player1HasMoves\<close>, \<open>player2HasMoves\<close>.
\<close>

definition check_cell :: "Board \<Rightarrow> Position \<Rightarrow> int \<times> int \<times> bool \<times> bool \<Rightarrow> int \<times> int \<times> bool \<times> bool" where
  "check_cell b c acc =
     (case (c, acc) of ((x, y), (player1Pieces, player2Pieces, player1HasMoves, player2HasMoves)) \<Rightarrow>
        if type (b y x) \<noteq> NONE then
          (if player (b y x) = PLAYER1 then
             (player1Pieces + 1, player2Pieces,
              (if \<not> player1HasMoves then player1_moves b x y else player1HasMoves),
              player2HasMoves)
           else
             (player1Pieces, player2Pieces + 1, player1HasMoves,
              (if \<not> player2HasMoves then player2_moves b x y else player2HasMoves)))
        else acc)"

text \<open>The cells in the order of the loops: rows from 0, and columns from 0 in each row.\<close>

definition all_cells :: "Position list" where
  "all_cells = concat (map (\<lambda>y. map (\<lambda>x. (x, y)) [0..BOARD_WIDTH div CELL_SIZE - 1])
                         [0..BOARD_HEIGHT div CELL_SIZE - 1])"

text \<open>
  \<open>CheckGameOver\<close> returns \<open>true\<close> with the out-parameter \<open>winner\<close> set, or \<open>false\<close>
  with \<open>winner\<close> untouched: \<open>Some winner\<close> or \<open>None\<close> here.
\<close>

definition CheckGameOver :: "GameState \<Rightarrow> Player \<Rightarrow> Player option" where
  "CheckGameOver gs currentPlayer' =
     (case fold (check_cell (board gs)) all_cells (0, 0, False, False) of
        (player1Pieces, player2Pieces, player1HasMoves, player2HasMoves) \<Rightarrow>
          if player1Pieces = 0 then Some PLAYER2
          else if player2Pieces = 0 then Some PLAYER1
          else if currentPlayer' = PLAYER1 \<and> \<not> player1HasMoves then Some PLAYER2
          else if currentPlayer' = PLAYER2 \<and> \<not> player2HasMoves then Some PLAYER1
          else None)"

section \<open>DrawBoard: the piece counts\<close>

text \<open>
  The number of pieces of a player that \<open>DrawBoard\<close> shows, counted as the source counts
  them: the cells whose \<open>type\<close> is not \<open>NONE\<close> and whose \<open>player\<close> is the player.
\<close>

definition piece_count :: "Board \<Rightarrow> Player \<Rightarrow> int" where
  "piece_count b p =
     int (length (filter (\<lambda>(x, y). type (b y x) \<noteq> NONE \<and> player (b y x) = p) all_cells))"

section \<open>Specification predicates\<close>

text \<open>
  \<open>appends_moves gs gs'\<close>: the state \<open>gs'\<close> differs from \<open>gs\<close> in \<open>validMoves\<close> and
  \<open>validMoveCount\<close> only, the count has not decreased and has not passed the capacity, and
  the array is the same below the old count and from the capacity on.
\<close>

definition appends_moves :: "GameState \<Rightarrow> GameState \<Rightarrow> bool" where
  "appends_moves gs gs' \<longleftrightarrow>
     gs' = gs\<lparr>validMoves := validMoves gs', validMoveCount := validMoveCount gs'\<rparr> \<and>
     validMoveCount gs \<le> validMoveCount gs' \<and>
     (validMoveCount gs \<le> MAX_VALID_MOVES \<longrightarrow> validMoveCount gs' \<le> MAX_VALID_MOVES) \<and>
     (\<forall>i. i < validMoveCount gs \<or> MAX_VALID_MOVES \<le> i \<longrightarrow> validMoves gs' i = validMoves gs i)"

text \<open>
  \<open>agree_moves g1 g2\<close>: the two states have the same board and the same candidate list.
\<close>

definition agree_moves :: "GameState \<Rightarrow> GameState \<Rightarrow> bool" where
  "agree_moves g1 g2 \<longleftrightarrow>
     board g1 = board g2 \<and> validMoveCount g1 = validMoveCount g2 \<and>
     (\<forall>i. 0 \<le> i \<and> i < validMoveCount g1 \<longrightarrow> validMoves g1 i = validMoves g2 i)"

text \<open>
  \<open>agree_off x y g1 g2\<close>: the two states have the same candidate list, and the same board
  except possibly at the cell \<open>(x, y)\<close>.
\<close>

definition agree_off :: "int \<Rightarrow> int \<Rightarrow> GameState \<Rightarrow> GameState \<Rightarrow> bool" where
  "agree_off x y g1 g2 \<longleftrightarrow>
     (\<forall>cx cy. (cx, cy) \<noteq> (x, y) \<longrightarrow> board g1 cy cx = board g2 cy cx) \<and>
     validMoveCount g1 = validMoveCount g2 \<and>
     (\<forall>i. 0 \<le> i \<and> i < validMoveCount g1 \<longrightarrow> validMoves g1 i = validMoves g2 i)"

text \<open>
  \<open>move_accepted gs x y\<close>: with the button pressed at \<open>(x, y)\<close>, \<open>HandleInput\<close> takes the
  branch that moves the selected piece: a piece is selected, the click is not a new
  selection, and \<open>IsValidMove\<close> finds \<open>(x, y)\<close> among the candidates.
\<close>

definition move_accepted :: "GameState \<Rightarrow> int \<Rightarrow> int \<Rightarrow> bool" where
  "move_accepted gs x y \<longleftrightarrow>
     pieceSelected gs \<and>
     (isCapturing gs \<or> type (board gs y x) = NONE \<or> player (board gs y x) \<noteq> currentPlayer gs) \<and>
     IsValidMove gs (selectedX gs) (selectedY gs) x y = Inr True"

text \<open>
  \<open>ray_open b p x y d\<close>: a piece of player \<open>p\<close> at \<open>(x, y)\<close> has the neighbour in
  direction \<open>d\<close> free, or can jump it: the neighbour is not of player \<open>p\<close> and the cell
  behind it is free.
\<close>

definition ray_open :: "Board \<Rightarrow> Player \<Rightarrow> int \<Rightarrow> int \<Rightarrow> Direction \<Rightarrow> bool" where
  "ray_open b p x y d \<longleftrightarrow>
     in_bounds (x + dir_dx d) (y + dir_dy d) \<and>
     (type (b (y + dir_dy d) (x + dir_dx d)) = NONE \<or>
      (player (b (y + dir_dy d) (x + dir_dx d)) \<noteq> p \<and>
       in_bounds (x + 2 * dir_dx d) (y + 2 * dir_dy d) \<and>
       type (b (y + 2 * dir_dy d) (x + 2 * dir_dx d)) = NONE))"

text \<open>
  \<open>owns b p x y\<close>: the cell \<open>(x, y)\<close> is in range and holds a piece of player \<open>p\<close>.
  \<open>ranks_consistent b\<close>: on every piece of the board the two encodings of the rank agree,
  \<open>isKing\<close> (read by \<open>FindValidMoves\<close>) and \<open>type == KING\<close> (read by
  \<open>CheckGameOver\<close>); \<open>PromoteToKing\<close> sets both and a move copies both.
\<close>

definition owns :: "Board \<Rightarrow> Player \<Rightarrow> int \<Rightarrow> int \<Rightarrow> bool" where
  "owns b p x y \<longleftrightarrow> in_bounds x y \<and> type (b y x) \<noteq> NONE \<and> player (b y x) = p"

definition ranks_consistent :: "Board \<Rightarrow> bool" where
  "ranks_consistent b \<longleftrightarrow>
     list_all (\<lambda>(x, y). type (b y x) \<noteq> NONE \<longrightarrow> (isKing (b y x) \<longleftrightarrow> type (b y x) = KING))
       all_cells"

text \<open>
  \<open>jump_path b p sx sy d k\<close>: from \<open>(sx, sy)\<close> in direction \<open>d\<close>, the cell at distance
  \<open>k\<close> is in range and free, the cell just before it holds a piece that is not of player
  \<open>p\<close>, and every cell before that one is free.
\<close>

definition jump_path :: "Board \<Rightarrow> Player \<Rightarrow> int \<Rightarrow> int \<Rightarrow> Direction \<Rightarrow> int \<Rightarrow> bool" where
  "jump_path b p sx sy d k \<longleftrightarrow>
     2 \<le> k \<and>
     in_bounds (sx + k * dir_dx d) (sy + k * dir_dy d) \<and>
     type (b (sy + k * dir_dy d) (sx + k * dir_dx d)) = NONE \<and>
     type (b (sy + (k - 1) * dir_dy d) (sx + (k - 1) * dir_dx d)) \<noteq> NONE \<and>
     player (b (sy + (k - 1) * dir_dy d) (sx + (k - 1) * dir_dx d)) \<noteq> p \<and>
     (\<forall>j. 1 \<le> j \<and> j < k - 1 \<longrightarrow> type (b (sy + j * dir_dy d) (sx + j * dir_dx d)) = NONE)"

text \<open>
  \<open>between_cells sx sy x y\<close>: the cells strictly between \<open>(sx, sy)\<close> and \<open>(x, y)\<close> on their
  diagonal, from the source outwards.
\<close>

definition between_cells :: "int \<Rightarrow> int \<Rightarrow> int \<Rightarrow> int \<Rightarrow> Position list" where
  "between_cells sx sy x y =
     map (\<lambda>j. (sx + j * sgn (x - sx), sy + j * sgn (y - sy))) [1..\<bar>x - sx\<bar> - 1]"

text \<open>The score of a player.\<close>

definition score :: "GameState \<Rightarrow> Player \<Rightarrow> int32" where
  "score gs p = (if p = PLAYER1 then player1Score gs else player2Score gs)"

text \<open>
  \<open>captures_one gs x y gs'\<close>: from \<open>gs\<close> to \<open>gs'\<close> the selected piece has gone to
  \<open>(x, y)\<close> and has captured one piece: the source cell is empty and the destination holds
  a piece of the mover; exactly one cell between them held a piece, it was the opponent's
  and it is empty now; the opponent has one piece less and the mover as many as before; the
  mover's score is one more and the opponent's is unchanged.
\<close>

definition captures_one :: "GameState \<Rightarrow> int \<Rightarrow> int \<Rightarrow> GameState \<Rightarrow> bool" where
  "captures_one gs x y gs' \<longleftrightarrow>
     type (board gs' (selectedY gs) (selectedX gs)) = NONE \<and>
     type (board gs' y x) \<noteq> NONE \<and> player (board gs' y x) = currentPlayer gs \<and>
     (\<exists>cx cy.
        filter (\<lambda>(px, py). type (board gs py px) \<noteq> NONE)
          (between_cells (selectedX gs) (selectedY gs) x y) = [(cx, cy)] \<and>
        player (board gs cy cx) = opponent (currentPlayer gs) \<and>
        type (board gs' cy cx) = NONE) \<and>
     piece_count (board gs') (opponent (currentPlayer gs)) =
       piece_count (board gs) (opponent (currentPlayer gs)) - 1 \<and>
     piece_count (board gs') (currentPlayer gs) = piece_count (board gs) (currentPlayer gs) \<and>
     score gs' (currentPlayer gs) = score gs (currentPlayer gs) + 1 \<and>
     score gs' (opponent (currentPlayer gs)) = score gs (opponent (currentPlayer gs))"

text \<open>
  \<open>chain_state gs\<close>: a capture sequence is in progress. The chain flag is set, the selected
  cell holds a piece of the current player, and the candidates are the ones that
  \<open>FindValidMoves\<close> generates for that cell with \<open>isAfterCapture\<close> true, as
  \<open>HandleInput\<close> leaves them when it keeps the piece selected after a capture.
\<close>

definition chain_state :: "GameState \<Rightarrow> bool" where
  "chain_state gs \<longleftrightarrow>
     pieceSelected gs \<and> isCapturing gs \<and>
     owns (board gs) (currentPlayer gs) (selectedX gs) (selectedY gs) \<and>
     generate gs (selectedX gs) (selectedY gs) True = Inr (candidates gs)"

text \<open>
  \<open>coherent gs\<close>: the invariant of the states that \<open>HandleInput\<close> reaches from an
  initialised game. The ranks are consistent; a selected cell holds a piece of the current
  player; and when the chain flag is set as well, the candidates are the capture candidates
  of the selected piece.
\<close>

definition coherent :: "GameState \<Rightarrow> bool" where
  "coherent gs \<longleftrightarrow>
     ranks_consistent (board gs) \<and>
     (pieceSelected gs \<longrightarrow>
        owns (board gs) (currentPlayer gs) (selectedX gs) (selectedY gs) \<and>
        (isCapturing gs \<longrightarrow> generate gs (selectedX gs) (selectedY gs) True = Inr (candidates gs)))"

section \<open>Boards and states of the scenarios\<close>

definition empty_cell :: Piece where
  "empty_cell = \<lparr>type = NONE, player = PLAYER1, isKing = False\<rparr>"

definition man :: "Player \<Rightarrow> Piece" where
  "man p = \<lparr>type = REGULAR, player = p, isKing = False\<rparr>"

definition king :: "Player \<Rightarrow> Piece" where
  "king p = \<lparr>type = KING, player = p, isKing = True\<rparr>"

definition empty_board :: Board where
  "empty_board = (\<lambda>y x. empty_cell)"

text \<open>A state with no piece selected, no candidate and no capture sequence.\<close>

definition idle_state :: "Board \<Rightarrow> Player \<Rightarrow> GameState" where
  "idle_state b p =
     \<lparr>board = b, currentPlayer = p, player1Score = 0, player2Score = 0,
      pieceSelected = False, selectedX = -1, selectedY = -1,
      validMoves = (\<lambda>i. (0, 0)), validMoveCount = 0, isCapturing = False\<rparr>"

text \<open>A king of the first player in the corner, with two men of the second player on its diagonal.\<close>

definition corner_king_board :: Board where
  "corner_king_board =
     set_cell (set_cell (set_cell empty_board 0 0 (king PLAYER1)) 2 2 (man PLAYER2))
       4 4 (man PLAYER2)"

text \<open>A man of the first player at \<open>(1, 1)\<close> with a man of the second player at \<open>(2, 2)\<close>.\<close>

definition man_capture_board :: Board where
  "man_capture_board = set_cell (set_cell empty_board 1 1 (man PLAYER1)) 2 2 (man PLAYER2)"

text \<open>A state with the piece at \<open>(sx, sy)\<close> selected and \<open>n\<close> candidates in \<open>vm\<close>.\<close>

definition selected_state ::
  "Board \<Rightarrow> Player \<Rightarrow> int \<Rightarrow> int \<Rightarrow> (int \<Rightarrow> Position) \<Rightarrow> int \<Rightarrow> GameState" where
  "selected_state b p sx sy vm n =
     \<lparr>board = b, currentPlayer = p, player1Score = 0, player2Score = 0,
      pieceSelected = True, selectedX = sx, selectedY = sy,
      validMoves = vm, validMoveCount = n, isCapturing = False\<rparr>"

text \<open>
  A man of the first player at \<open>(1, 5)\<close>, selected, that can jump the man at \<open>(2, 6)\<close>
  and land on the last row at \<open>(3, 7)\<close>, from where the man at \<open>(4, 6)\<close> could be jumped.
\<close>

definition promotion_board :: Board where
  "promotion_board =
     set_cell (set_cell (set_cell empty_board 1 5 (man PLAYER1)) 2 6 (man PLAYER2))
       4 6 (man PLAYER2)"

definition promotion_state :: GameState where
  "promotion_state =
     selected_state promotion_board PLAYER1 1 5
       (\<lambda>i. if i = 0 then (3, 7) else if i = 1 then (0, 6) else (0, 0)) 2"

text \<open>
  A man of the first player at \<open>(0, 5)\<close> that cannot move: the neighbour \<open>(1, 6)\<close> and
  the cell behind it are taken by men of the second player.
\<close>

definition blocked_board :: Board where
  "blocked_board =
     set_cell (set_cell (set_cell empty_board 0 5 (man PLAYER1)) 1 6 (man PLAYER2))
       2 7 (man PLAYER2)"

text \<open>
  The king in the corner, selected, with the candidates that a fresh selection generates;
  and a man at \<open>(2, 2)\<close> in the middle of a capture sequence, with the man at \<open>(3, 3)\<close>
  to jump next.
\<close>

definition king_capture_state :: GameState where
  "king_capture_state =
     selected_state corner_king_board PLAYER1 0 0
       (\<lambda>i. if i = 0 then (1, 1) else if i = 1 then (3, 3) else (0, 0)) 2"

definition chain_board :: Board where
  "chain_board = set_cell (set_cell empty_board 2 2 (man PLAYER1)) 3 3 (man PLAYER2)"

definition chain_scenario :: GameState where
  "chain_scenario =
     (selected_state chain_board PLAYER1 2 2 (\<lambda>i. if i = 0 then (4, 4) else (0, 0)) 1)
       \<lparr>player1Score := 1, isCapturing := True\<rparr>"

text \<open>
  A king alone in the middle of the board: its four diagonals have thirteen free cells, one
  more than \<open>validMoves\<close> can hold.
\<close>

definition centre_king_board :: Board where
  "centre_king_board = set_cell empty_board 3 4 (king PLAYER1)"

section \<open>Basic facts\<close>

lemma cols [simp]: "BOARD_WIDTH div CELL_SIZE = 8" "BOARD_HEIGHT div CELL_SIZE = 8"
  by (simp_all add: BOARD_WIDTH_def BOARD_HEIGHT_def CELL_SIZE_def)

lemma max_moves [simp]: "MAX_VALID_MOVES = 12"
  by (simp add: MAX_VALID_MOVES_def)

lemma in_bounds_iff: "in_bounds x y \<longleftrightarrow> 0 \<le> x \<and> x < 8 \<and> 0 \<le> y \<and> y < 8"
  by (auto simp: in_bounds_def)

lemma set_cell_apply [simp]:
  "set_cell b x y p y' x' = (if y' = y \<and> x' = x then p else b y' x')"
  by (simp add: set_cell_def)

lemma dir_cases: "(dir_dx d = 1 \<or> dir_dx d = -1) \<and> (dir_dy d = 1 \<or> dir_dy d = -1)"
  by (cases d) simp_all

lemma man_directions_cases:
  "man_directions p = [DownRight, DownLeft] \<or> man_directions p = [UpRight, UpLeft]"
  by (simp add: man_directions_def)

lemmas scenario_defs =
  empty_cell_def man_def king_def empty_board_def idle_state_def
  corner_king_board_def man_capture_board_def selected_state_def
  promotion_board_def promotion_state_def
  king_capture_state_def chain_board_def chain_scenario_def centre_king_board_def

section \<open>The guarded append\<close>

lemma candidates_add_move:
  "0 \<le> validMoveCount gs \<Longrightarrow> validMoveCount gs < 12 \<Longrightarrow>
   candidates (add_move gs a b) = candidates gs @ [(a, b)]"
  by (auto simp: candidates_def add_move_def nat_add_distrib)

lemma candidates_reset [simp]: "candidates (gs\<lparr>validMoveCount := 0\<rparr>) = []"
  by (simp add: candidates_def)

lemma add_move_board [simp]: "board (add_move gs a b) = board gs"
  by (simp add: add_move_def)

lemma add_move_count:
  "validMoveCount gs < 12 \<Longrightarrow> validMoveCount (add_move gs a b) = validMoveCount gs + 1"
  by (simp add: add_move_def)

lemma appends_moves_refl: "appends_moves gs gs"
  by (simp add: appends_moves_def)

lemma appends_moves_trans:
  assumes "appends_moves g1 g2" and "appends_moves g2 g3"
  shows "appends_moves g1 g3"
proof -
  have "g3 = g1\<lparr>validMoves := validMoves g3, validMoveCount := validMoveCount g3\<rparr>"
    using assms unfolding appends_moves_def
    by (metis (no_types, lifting) GameState.surjective GameState.update_convs(8,9))
  then show ?thesis
    using assms unfolding appends_moves_def by auto
qed

lemma appends_moves_add_move: "appends_moves gs (add_move gs a b)"
  by (simp add: appends_moves_def add_move_def)

section \<open>The scan of a king\<close>

lemma king_scan_out:
  "\<not> in_bounds (nx + dir_dx d) (ny + dir_dy d) \<Longrightarrow> king_scan gs piece d a nx ny f c = (gs, c)"
  by (simp add: king_scan.simps)

lemma king_scan_appends:
  "king_scan gs piece d a nx ny f c = (gs', c') \<Longrightarrow> appends_moves gs gs'"
proof (induction gs piece d a nx ny f c arbitrary: gs' c' rule: king_scan.induct)
  case (1 gs piece d a nx0 ny0 f c)
  let ?x = "nx0 + dir_dx d" and ?y = "ny0 + dir_dy d"
  note am = appends_moves_add_move [of gs ?x ?y]
  show ?case
    using "1.prems" "1.IH" am
    apply (subst (asm) king_scan.simps)
    apply (auto simp: Let_def appends_moves_refl split: if_splits
                intro: appends_moves_trans [OF am])
    done
qed

lemma corner_king_generate:
  assumes "isKing (board gs 0 0)"
    and "type (board gs 1 1) = NONE"
    and "type (board gs 2 2) \<noteq> NONE" and "player (board gs 2 2) \<noteq> player (board gs 0 0)"
    and "type (board gs 3 3) = NONE"
  shows "generate gs 0 0 False = Inr [(1, 1), (3, 3)]"
    and "generate gs 0 0 True = Inr [(3, 3)]"
  using assms
  by (simp_all add: generate_def FindValidMoves_def in_bounds_iff
        king_scan.simps [of _ _ _ _ 0 0] king_scan.simps [of _ _ _ _ 1 1]
        king_scan.simps [of _ _ _ _ 2 2] king_scan_out candidates_add_move add_move_count)

section \<open>The candidates of a man\<close>

lemma man_step_effect:
  assumes "0 \<le> validMoveCount gs" and "validMoveCount gs \<le> 10"
  shows "candidates (man_step gs piece d a x y) =
           candidates gs @
           (if in_bounds (x + dir_dx d) (y + dir_dy d) \<and>
               type (board gs (y + dir_dy d) (x + dir_dx d)) = NONE \<and> \<not> a
            then [(x + dir_dx d, y + dir_dy d)] else []) @
           (if in_bounds (x + dir_dx d) (y + dir_dy d) \<and>
               in_bounds (x + 2 * dir_dx d) (y + 2 * dir_dy d) \<and>
               type (board gs (y + 2 * dir_dy d) (x + 2 * dir_dx d)) = NONE \<and>
               type (board gs (y + dir_dy d) (x + dir_dx d)) \<noteq> NONE \<and>
               player (board gs (y + dir_dy d) (x + dir_dx d)) \<noteq> player piece
            then [(x + 2 * dir_dx d, y + 2 * dir_dy d)] else [])"
    and "board (man_step gs piece d a x y) = board gs"
    and "validMoveCount gs \<le> validMoveCount (man_step gs piece d a x y)"
    and "validMoveCount (man_step gs piece d a x y) \<le> validMoveCount gs + 2"
  using assms
  by (auto simp: man_step_def Let_def candidates_add_move add_move_count)

lemma man_generate:
  assumes "in_bounds x y" and "\<not> isKing (board gs y x)"
    and "man_directions (player (board gs y x)) = [d1, d2]"
  shows "generate gs x y a =
           Inr ((if in_bounds (x + dir_dx d1) (y + dir_dy d1) \<and>
               type (board gs (y + dir_dy d1) (x + dir_dx d1)) = NONE \<and> \<not> a
            then [(x + dir_dx d1, y + dir_dy d1)] else []) @
           (if in_bounds (x + dir_dx d1) (y + dir_dy d1) \<and>
               in_bounds (x + 2 * dir_dx d1) (y + 2 * dir_dy d1) \<and>
               type (board gs (y + 2 * dir_dy d1) (x + 2 * dir_dx d1)) = NONE \<and>
               type (board gs (y + dir_dy d1) (x + dir_dx d1)) \<noteq> NONE \<and>
               player (board gs (y + dir_dy d1) (x + dir_dx d1)) \<noteq> player (board gs y x)
            then [(x + 2 * dir_dx d1, y + 2 * dir_dy d1)] else []) @
           (if in_bounds (x + dir_dx d2) (y + dir_dy d2) \<and>
               type (board gs (y + dir_dy d2) (x + dir_dx d2)) = NONE \<and> \<not> a
            then [(x + dir_dx d2, y + dir_dy d2)] else []) @
           (if in_bounds (x + dir_dx d2) (y + dir_dy d2) \<and>
               in_bounds (x + 2 * dir_dx d2) (y + 2 * dir_dy d2) \<and>
               type (board gs (y + 2 * dir_dy d2) (x + 2 * dir_dx d2)) = NONE \<and>
               type (board gs (y + dir_dy d2) (x + dir_dx d2)) \<noteq> NONE \<and>
               player (board gs (y + dir_dy d2) (x + dir_dx d2)) \<noteq> player (board gs y x)
            then [(x + 2 * dir_dx d2, y + 2 * dir_dy d2)] else []))"
proof -
  let ?g0 = "gs\<lparr>validMoveCount := 0\<rparr>"
  let ?p = "board gs y x"
  let ?g1 = "man_step ?g0 ?p d1 a x y"
  have c1: "0 \<le> validMoveCount ?g1" "validMoveCount ?g1 \<le> 10"
    using man_step_effect(3,4) [of ?g0 ?p d1 a x y] by simp_all
  have b1: "board ?g1 = board gs"
    using man_step_effect(2) [of ?g0 ?p d1 a x y] by simp
  have "FindValidMoves gs x y a = Inr (man_step ?g1 ?p d2 a x y)"
    using assms by (simp add: FindValidMoves_def Let_def)
  then show ?thesis
    unfolding generate_def
    by (simp add: man_step_effect(1) [OF c1] b1 man_step_effect(1) [of ?g0 ?p d1 a x y]
             del: append_assoc)
qed

section \<open>What a generation changes, and what it depends on\<close>

lemma agree_moves_add_move:
  "agree_moves g1 g2 \<Longrightarrow> agree_moves (add_move g1 a b) (add_move g2 a b)"
  by (auto simp: agree_moves_def add_move_def)

lemma agree_moves_candidates: "agree_moves g1 g2 \<Longrightarrow> candidates g1 = candidates g2"
  by (auto simp: agree_moves_def candidates_def)

lemma king_scan_agree:
  "agree_moves g1 g2 \<Longrightarrow>
   agree_moves (fst (king_scan g1 piece d a nx ny f c)) (fst (king_scan g2 piece d a nx ny f c)) \<and>
   snd (king_scan g1 piece d a nx ny f c) = snd (king_scan g2 piece d a nx ny f c)"
proof (induction g1 piece d a nx ny f c arbitrary: g2 rule: king_scan.induct)
  case (1 gs piece d a nx0 ny0 f c)
  let ?x = "nx0 + dir_dx d" and ?y = "ny0 + dir_dy d"
  have b: "board gs = board g2" and n: "validMoveCount gs = validMoveCount g2"
    using "1.prems" by (simp_all add: agree_moves_def)
  note am = agree_moves_add_move [OF "1.prems", of ?x ?y]
  show ?case
    apply (subst king_scan.simps [of gs])
    apply (subst king_scan.simps [of g2])
    apply (subst (3) king_scan.simps [of gs])
    apply (subst (3) king_scan.simps [of g2])
    using "1.IH"(1) [OF refl refl _ _ _ _ am] "1.IH"(2) [OF refl refl _ _ _ _ "1.prems"]
      "1.IH"(3) [OF refl refl _ _ _ _ "1.prems"] am "1.prems"
    by (simp add: Let_def b n)
qed


lemma king_fold_appends:
  "fold (\<lambda>d (g, ca). king_scan g piece d a x y False ca) ds (gs, c) = (gs', c') \<Longrightarrow>
   appends_moves gs gs'"
proof (induction ds arbitrary: gs c)
  case Nil
  then show ?case by (simp add: appends_moves_refl)
next
  case (Cons d ds)
  obtain h k where hk: "king_scan gs piece d a x y False c = (h, k)"
    by (cases "king_scan gs piece d a x y False c")
  have "appends_moves gs h"
    using king_scan_appends [OF hk] .
  moreover have "appends_moves h gs'"
    using Cons.IH [of h k] Cons.prems by (simp add: hk)
  ultimately show ?case
    by (rule appends_moves_trans)
qed

lemma king_fold_agree:
  "agree_moves g1 g2 \<Longrightarrow>
   agree_moves (fst (fold (\<lambda>d (g, ca). king_scan g piece d a x y False ca) ds (g1, c)))
               (fst (fold (\<lambda>d (g, ca). king_scan g piece d a x y False ca) ds (g2, c))) \<and>
   snd (fold (\<lambda>d (g, ca). king_scan g piece d a x y False ca) ds (g1, c)) =
   snd (fold (\<lambda>d (g, ca). king_scan g piece d a x y False ca) ds (g2, c))"
proof (induction ds arbitrary: g1 g2 c)
  case Nil
  then show ?case by simp
next
  case (Cons d ds)
  obtain h1 k1 where s1: "king_scan g1 piece d a x y False c = (h1, k1)"
    by (cases "king_scan g1 piece d a x y False c")
  obtain h2 k2 where s2: "king_scan g2 piece d a x y False c = (h2, k2)"
    by (cases "king_scan g2 piece d a x y False c")
  have "agree_moves h1 h2 \<and> k1 = k2"
    using king_scan_agree [OF Cons.prems, of piece d a x y False c] by (simp add: s1 s2)
  then show ?case
    using Cons.IH [of h1 h2 k1] by (simp add: s1 s2)
qed

lemma man_step_appends: "appends_moves gs (man_step gs piece d a x y)"
  unfolding man_step_def Let_def
  by (auto intro: appends_moves_refl appends_moves_add_move
        appends_moves_trans [OF appends_moves_add_move appends_moves_add_move])

lemma man_step_agree:
  "agree_moves g1 g2 \<Longrightarrow> agree_moves (man_step g1 piece d a x y) (man_step g2 piece d a x y)"
  unfolding man_step_def Let_def
  using agree_moves_add_move
  by (auto simp: agree_moves_def [of g1 g2])

lemma man_fold_appends:
  "appends_moves gs (fold (\<lambda>d g. man_step g piece d a x y) ds gs)"
proof (induction ds arbitrary: gs)
  case Nil
  then show ?case by (simp add: appends_moves_refl)
next
  case (Cons d ds)
  show ?case
    using appends_moves_trans [OF man_step_appends Cons.IH] by simp
qed

lemma man_fold_agree:
  "agree_moves g1 g2 \<Longrightarrow>
   agree_moves (fold (\<lambda>d g. man_step g piece d a x y) ds g1)
               (fold (\<lambda>d g. man_step g piece d a x y) ds g2)"
  by (induction ds arbitrary: g1 g2) (simp_all add: man_step_agree)

lemma appends_moves_reset:
  "appends_moves g0 g1 \<Longrightarrow> validMoveCount g0 = 0 \<Longrightarrow> appends_moves g0 (g1\<lparr>validMoveCount := 0\<rparr>)"
  unfolding appends_moves_def
  by (metis (no_types, lifting) GameState.select_convs(8,9) GameState.surjective GameState.update_convs(8,9) order_refl zero_le_numeral max_moves)

lemma FindValidMoves_appends:
  assumes "in_bounds x y"
  shows "\<exists>gs'. FindValidMoves gs x y a = Inr gs' \<and> appends_moves (gs\<lparr>validMoveCount := 0\<rparr>) gs'"
proof (cases "isKing (board gs y x)")
  case True
  let ?g0 = "gs\<lparr>validMoveCount := 0\<rparr>"
  obtain h k where hk:
    "fold (\<lambda>d (g, ca). king_scan g (board gs y x) d a x y False ca)
       [DownRight, DownLeft, UpRight, UpLeft] (?g0, False) = (h, k)"
    by (cases "fold (\<lambda>d (g, ca). king_scan g (board gs y x) d a x y False ca)
       [DownRight, DownLeft, UpRight, UpLeft] (?g0, False)")
  have ap: "appends_moves ?g0 h"
    using king_fold_appends [OF hk] .
  have "FindValidMoves gs x y a = Inr (if a \<and> \<not> k then h\<lparr>validMoveCount := 0\<rparr> else h)"
    using assms True hk unfolding FindValidMoves_def Let_def by simp
  then show ?thesis
    using ap appends_moves_reset [OF ap] by simp
next
  case False
  then show ?thesis
    using assms man_fold_appends unfolding FindValidMoves_def Let_def by simp
qed

lemma agree_moves_reset: "agree_moves g1 g2 \<Longrightarrow> agree_moves (g1\<lparr>validMoveCount := 0\<rparr>) (g2\<lparr>validMoveCount := 0\<rparr>)"
  by (simp add: agree_moves_def)

lemma generate_agree:
  assumes "board g1 = board g2"
  shows "generate g1 x y a = generate g2 x y a"
proof (cases "in_bounds x y")
  case False
  then show ?thesis by (simp add: generate_def FindValidMoves_def)
next
  case inb: True
  let ?h1 = "g1\<lparr>validMoveCount := 0\<rparr>" and ?h2 = "g2\<lparr>validMoveCount := 0\<rparr>"
  have ag: "agree_moves ?h1 ?h2"
    using assms by (auto simp: agree_moves_def)
  show ?thesis
  proof (cases "isKing (board g1 y x)")
    case True
    let ?f = "\<lambda>g. fold (\<lambda>d (g, ca). king_scan g (board g2 y x) d a x y False ca)
       [DownRight, DownLeft, UpRight, UpLeft] (g, False)"
    obtain h1 k1 where r1: "?f ?h1 = (h1, k1)" by (cases "?f ?h1")
    obtain h2 k2 where r2: "?f ?h2 = (h2, k2)" by (cases "?f ?h2")
    have kk: "agree_moves h1 h2 \<and> k1 = k2"
      using king_fold_agree [OF ag, of "board g2 y x" a x y
          "[DownRight, DownLeft, UpRight, UpLeft]" False]
      unfolding r1 r2 by simp
    have c: "candidates h1 = candidates h2"
      using kk agree_moves_candidates by blast
    have "FindValidMoves g1 x y a = Inr (if a \<and> \<not> k1 then h1\<lparr>validMoveCount := 0\<rparr> else h1)"
      using inb True assms r1 unfolding FindValidMoves_def Let_def by simp
    moreover have "FindValidMoves g2 x y a = Inr (if a \<and> \<not> k2 then h2\<lparr>validMoveCount := 0\<rparr> else h2)"
      using inb True assms r2 unfolding FindValidMoves_def Let_def by simp
    ultimately show ?thesis
      using kk c unfolding generate_def by simp
  next
    case False
    show ?thesis
      using inb False assms agree_moves_candidates [OF man_fold_agree [OF ag]]
      unfolding generate_def FindValidMoves_def Let_def
      by simp
  qed
qed

section \<open>Applying a move\<close>

lemma capture_scan_cases:
  "capture_scan gs x y cx cy = Inr (gs1, al) \<Longrightarrow>
     (\<not> al \<and> gs1 = gs) \<or>
     (al \<and> (\<exists>px py. px \<noteq> x \<and> py \<noteq> y \<and> in_bounds px py \<and>
              type (board gs py px) \<noteq> NONE \<and> player (board gs py px) \<noteq> currentPlayer gs \<and>
              gs1 = add_score (remove_piece gs px py)))"
proof (induction gs x y cx cy rule: capture_scan.induct)
  case (1 gs x y captureX captureY)
  show ?case
    using "1.prems" "1.IH"
    apply (subst (asm) capture_scan.simps)
    apply (simp add: Let_def split: if_splits)
    apply blast
    done
qed

lemma resolve_capture_cases:
  assumes "resolve_capture gs x y = Inr (gs1, ic)"
    and "in_bounds (selectedX gs) (selectedY gs)" and "in_bounds x y"
  shows "gs1 = gs \<or> gs1 = gs\<lparr>isCapturing := True\<rparr> \<or>
         (\<exists>px py. (px, py) \<noteq> (x, y) \<and> in_bounds px py \<and>
            gs1 = (add_score (remove_piece gs px py))\<lparr>isCapturing := True\<rparr>)"
proof (cases "\<bar>selectedX gs - x\<bar> > 1 \<and> \<bar>selectedY gs - y\<bar> > 1")
  case False
  then show ?thesis
    using assms(1) by (auto simp: resolve_capture_def Let_def)
next
  case far: True
  show ?thesis
  proof (cases "isKing (board gs (selectedY gs) (selectedX gs))")
    case True
    let ?dx = "if x > selectedX gs then 1 else -1 :: int"
    let ?dy = "if y > selectedY gs then 1 else -1 :: int"
    obtain g al where cs:
      "capture_scan gs x y (selectedX gs + ?dx) (selectedY gs + ?dy) = Inr (g, al)"
      and g1: "gs1 = g\<lparr>isCapturing := True\<rparr>"
      using assms(1) far True
      by (auto simp: resolve_capture_def Let_def split: sum.splits if_splits)
    show ?thesis
      using capture_scan_cases [OF cs] g1 by auto
  next
    case False
    have "gs1 = (add_score (remove_piece gs ((selectedX gs + x) div 2) ((selectedY gs + y) div 2)))
                  \<lparr>isCapturing := True\<rparr>"
      using assms(1) far False by (auto simp: resolve_capture_def Let_def)
    moreover have "((selectedX gs + x) div 2, (selectedY gs + y) div 2) \<noteq> (x, y)"
      using far by auto
    moreover have "in_bounds ((selectedX gs + x) div 2) ((selectedY gs + y) div 2)"
      using assms(2,3) by (auto simp: in_bounds_iff)
    ultimately show ?thesis by blast
  qed
qed


lemma HandleInput_move:
  assumes "move_accepted gs x y" and "in_bounds x y"
  shows "HandleInput gs True x y = apply_move gs x y"
  using assms by (auto simp: HandleInput_def move_accepted_def)

lemma FindValidMoves_in_bounds: "FindValidMoves gs x y a = Inr gs' \<Longrightarrow> in_bounds x y"
  by (auto simp: FindValidMoves_def Let_def split: if_splits)

lemma FindValidMoves_fields:
  assumes "FindValidMoves gs x y a = Inr gs'"
  shows "board gs' = board gs" and "currentPlayer gs' = currentPlayer gs"
    and "player1Score gs' = player1Score gs" and "player2Score gs' = player2Score gs"
    and "pieceSelected gs' = pieceSelected gs" and "selectedX gs' = selectedX gs"
    and "selectedY gs' = selectedY gs" and "isCapturing gs' = isCapturing gs"
proof -
  have "appends_moves (gs\<lparr>validMoveCount := 0\<rparr>) gs'"
    using FindValidMoves_appends [OF FindValidMoves_in_bounds [OF assms], of gs a] assms by simp
  then have eq: "gs' = gs\<lparr>validMoves := validMoves gs', validMoveCount := validMoveCount gs'\<rparr>"
    unfolding appends_moves_def by simp
  show "board gs' = board gs" by (subst eq) simp
  show "currentPlayer gs' = currentPlayer gs" by (subst eq) simp
  show "player1Score gs' = player1Score gs" by (subst eq) simp
  show "player2Score gs' = player2Score gs" by (subst eq) simp
  show "pieceSelected gs' = pieceSelected gs" by (subst eq) simp
  show "selectedX gs' = selectedX gs" by (subst eq) simp
  show "selectedY gs' = selectedY gs" by (subst eq) simp
  show "isCapturing gs' = isCapturing gs" by (subst eq) simp
qed

lemma capture_scan_total:
  assumes "in_bounds (selectedX gs) (selectedY gs)" and "in_bounds x y"
    and "(x > selectedX gs \<and> selectedX gs < cx \<and> cx \<le> x) \<or> (x < selectedX gs \<and> x \<le> cx \<and> cx < selectedX gs)"
    and "(y > selectedY gs \<and> selectedY gs < cy \<and> cy \<le> y) \<or> (y < selectedY gs \<and> y \<le> cy \<and> cy < selectedY gs)"
  shows "\<exists>r. capture_scan gs x y cx cy = Inr r"
  using assms
proof (induction gs x y cx cy rule: capture_scan.induct)
  case (1 gs x y captureX captureY)
  have inb: "in_bounds captureX captureY"
    using "1.prems" by (auto simp: in_bounds_iff)
  show ?case
  proof (cases "captureX \<noteq> x \<and> captureY \<noteq> y \<and>
                \<not> (type (board gs captureY captureX) \<noteq> NONE \<and>
                   player (board gs captureY captureX) \<noteq> currentPlayer gs)")
    case True
    have "\<exists>r. capture_scan gs x y (captureX + (if x > selectedX gs then 1 else -1))
                 (captureY + (if y > selectedY gs then 1 else -1)) = Inr r"
      using True inb "1.prems"
      by (intro "1.IH" [OF refl refl]) auto
    then show ?thesis
      using True inb by (subst capture_scan.simps) (auto simp: Let_def)
  next
    case False
    then show ?thesis
      using inb by (subst capture_scan.simps) (auto simp: Let_def)
  qed
qed

lemma resolve_capture_total:
  assumes "in_bounds (selectedX gs) (selectedY gs)" and "in_bounds x y"
  shows "\<exists>gs1 ic. resolve_capture gs x y = Inr (gs1, ic)"
proof (cases "\<bar>selectedX gs - x\<bar> > 1 \<and> \<bar>selectedY gs - y\<bar> > 1 \<and>
              isKing (board gs (selectedY gs) (selectedX gs))")
  case True
  let ?dx = "if x > selectedX gs then 1 else -1 :: int"
  let ?dy = "if y > selectedY gs then 1 else -1 :: int"
  have x1: "(x > selectedX gs \<and> selectedX gs < selectedX gs + ?dx \<and> selectedX gs + ?dx \<le> x) \<or>
            (x < selectedX gs \<and> x \<le> selectedX gs + ?dx \<and> selectedX gs + ?dx < selectedX gs)"
    using True by auto
  have y1: "(y > selectedY gs \<and> selectedY gs < selectedY gs + ?dy \<and> selectedY gs + ?dy \<le> y) \<or>
            (y < selectedY gs \<and> y \<le> selectedY gs + ?dy \<and> selectedY gs + ?dy < selectedY gs)"
    using True by auto
  obtain r where "capture_scan gs x y (selectedX gs + ?dx) (selectedY gs + ?dy) = Inr r"
    using capture_scan_total [OF assms x1 y1] by blast
  then show ?thesis
    using True by (cases r) (simp add: resolve_capture_def Let_def)
next
  case False
  then show ?thesis
    by (auto simp: resolve_capture_def Let_def)
qed


lemma add_score_fields [simp]:
  "board (add_score g) = board g" "currentPlayer (add_score g) = currentPlayer g"
  "pieceSelected (add_score g) = pieceSelected g" "selectedX (add_score g) = selectedX g"
  "selectedY (add_score g) = selectedY g" "validMoves (add_score g) = validMoves g"
  "validMoveCount (add_score g) = validMoveCount g" "isCapturing (add_score g) = isCapturing g"
  by (simp_all add: add_score_def)

lemma remove_piece_fields [simp]:
  "currentPlayer (remove_piece g px py) = currentPlayer g"
  "pieceSelected (remove_piece g px py) = pieceSelected g"
  "selectedX (remove_piece g px py) = selectedX g"
  "selectedY (remove_piece g px py) = selectedY g"
  "validMoves (remove_piece g px py) = validMoves g"
  "validMoveCount (remove_piece g px py) = validMoveCount g"
  "isCapturing (remove_piece g px py) = isCapturing g"
  "player1Score (remove_piece g px py) = player1Score g"
  "player2Score (remove_piece g px py) = player2Score g"
  by (simp_all add: remove_piece_def)

lemma remove_piece_board:
  "board (remove_piece g px py) cy cx =
     (if cx = px \<and> cy = py then (board g cy cx)\<lparr>type := NONE\<rparr> else board g cy cx)"
  by (simp add: remove_piece_def)

lemma resolve_capture_frame:
  assumes "resolve_capture gs x y = Inr (gs1, ic)"
    and "in_bounds (selectedX gs) (selectedY gs)" and "in_bounds x y"
  shows "currentPlayer gs1 = currentPlayer gs" and "selectedX gs1 = selectedX gs"
    and "selectedY gs1 = selectedY gs"
    and "player (board gs1 cy cx) = player (board gs cy cx)"
    and "isKing (board gs1 cy cx) = isKing (board gs cy cx)"
    and "type (board gs1 cy cx) = type (board gs cy cx) \<or> type (board gs1 cy cx) = NONE"
    and "board gs1 y x = board gs y x"
  using resolve_capture_cases [OF assms]
  by (auto simp: remove_piece_board split: if_splits)

lemma move_piece_board:
  "board (move_piece g x y) cy cx =
     (if cx = selectedX g \<and> cy = selectedY g then (board g cy cx)\<lparr>type := NONE\<rparr>
      else if cx = x \<and> cy = y then board g (selectedY g) (selectedX g)
      else board g cy cx)"
  by (simp add: move_piece_def Let_def)

lemma move_piece_fields [simp]:
  "currentPlayer (move_piece g x y) = currentPlayer g"
  "selectedX (move_piece g x y) = selectedX g"
  "selectedY (move_piece g x y) = selectedY g"
  by (simp_all add: move_piece_def Let_def)

lemma PromoteToKing_frame:
  assumes "PromoteToKing g x y = Inr g'"
  shows "currentPlayer g' = currentPlayer g"
    and "(cx, cy) \<noteq> (x, y) \<Longrightarrow> board g' cy cx = board g cy cx"
    and "player (board g' cy cx) = player (board g cy cx)"
    and "isKing (board g' y x) \<longleftrightarrow> isKing (board g y x) \<or>
           (currentPlayer g = PLAYER1 \<and> y = 7) \<or> (currentPlayer g = PLAYER2 \<and> y = 0)"
  using assms by (auto simp: PromoteToKing_def split: if_splits)

lemma end_turn_fields [simp]:
  "board (end_turn g) = board g" "pieceSelected (end_turn g) = False"
  "validMoveCount (end_turn g) = 0" "isCapturing (end_turn g) = False"
  "currentPlayer (end_turn g) = opponent (currentPlayer g)"
  "player1Score (end_turn g) = player1Score g" "player2Score (end_turn g) = player2Score g"
  by (simp_all add: end_turn_def SwitchTurn_def opponent_def)

lemma apply_move_cases:
  assumes "in_bounds (selectedX gs) (selectedY gs)" and "in_bounds x y"
  obtains (promoted) gs1 ic gs3 where
      "resolve_capture gs x y = Inr (gs1, ic)"
      "PromoteToKing (move_piece gs1 x y) x y = Inr gs3"
      "\<not> isKing (board (move_piece gs1 x y) (selectedY gs) (selectedX gs))"
      "isKing (board gs3 y x)"
      "apply_move gs x y = Inr (end_turn gs3)"
  | (chain) gs1 ic gs3 gs4 where
      "resolve_capture gs x y = Inr (gs1, ic)"
      "PromoteToKing (move_piece gs1 x y) x y = Inr gs3"
      "isKing (board (move_piece gs1 x y) (selectedY gs) (selectedX gs)) \<or> \<not> isKing (board gs3 y x)"
      "FindValidMoves gs3 x y True = Inr gs4"
      "ic" "validMoveCount gs4 > 0"
      "apply_move gs x y = Inr (gs4\<lparr>pieceSelected := True, selectedX := x, selectedY := y\<rparr>)"
  | (ended) gs1 ic gs3 gs4 where
      "resolve_capture gs x y = Inr (gs1, ic)"
      "PromoteToKing (move_piece gs1 x y) x y = Inr gs3"
      "isKing (board (move_piece gs1 x y) (selectedY gs) (selectedX gs)) \<or> \<not> isKing (board gs3 y x)"
      "FindValidMoves gs3 x y True = Inr gs4"
      "\<not> (ic \<and> validMoveCount gs4 > 0)"
      "apply_move gs x y = Inr (end_turn gs4)"
proof -
  obtain gs1 ic where rc: "resolve_capture gs x y = Inr (gs1, ic)"
    using resolve_capture_total [OF assms] by blast
  have sel: "selectedX gs1 = selectedX gs" "selectedY gs1 = selectedY gs"
    using resolve_capture_frame(2,3) [OF rc assms] by simp_all
  obtain gs3 where pk: "PromoteToKing (move_piece gs1 x y) x y = Inr gs3"
    using assms(2)
    by (cases "PromoteToKing (move_piece gs1 x y) x y") (auto simp: PromoteToKing_def split: if_splits)
  obtain gs4 where fv: "FindValidMoves gs3 x y True = Inr gs4"
    using FindValidMoves_appends [OF assms(2)] by blast
  have am: "apply_move gs x y =
      (if \<not> isKing (board (move_piece gs1 x y) (selectedY gs) (selectedX gs)) \<and>
          isKing (board gs3 y x)
       then Inr (end_turn gs3)
       else if ic \<and> validMoveCount gs4 > 0
       then Inr (gs4\<lparr>pieceSelected := True, selectedX := x, selectedY := y\<rparr>)
       else Inr (end_turn gs4))"
    using assms by (simp add: apply_move_def Let_def rc pk fv sel)
  show thesis
  proof (cases "\<not> isKing (board (move_piece gs1 x y) (selectedY gs) (selectedX gs)) \<and>
                isKing (board gs3 y x)")
    case True
    then have "apply_move gs x y = Inr (end_turn gs3)"
      using am by simp
    then show ?thesis
      using True rc pk promoted [of gs1 ic gs3] by blast
  next
    case nk: False
    show ?thesis
    proof (cases "ic \<and> validMoveCount gs4 > 0")
      case True
      then have "apply_move gs x y = Inr (gs4\<lparr>pieceSelected := True, selectedX := x, selectedY := y\<rparr>)"
        using am nk by simp
      then show ?thesis
        using True nk rc pk fv chain [of gs1 ic gs3 gs4] by blast
    next
      case False
      then have "apply_move gs x y = Inr (end_turn gs4)"
        using am nk by auto
      then show ?thesis
        using False nk rc pk fv ended [of gs1 ic gs3 gs4] by blast
    qed
  qed
qed

section \<open>The scenario of a capture that promotes\<close>

lemmas handle_defs =
  HandleInput_def IsValidMove_def IsValidMove_from.simps apply_move_def resolve_capture_def
  move_piece_def PromoteToKing_def end_turn_def SwitchTurn_def add_score_def remove_piece_def
  Let_def in_bounds_iff move_accepted_def opponent_def

lemma promotion_state_accepts: "move_accepted promotion_state 3 7"
  by (simp add: handle_defs scenario_defs)

lemma promotion_state_click:
  "\<exists>t. HandleInput promotion_state True 3 7 = Inr t \<and> isKing (board t 7 3) \<and>
     type (board t 6 2) = NONE \<and> generate t 3 7 True = Inr [(5, 5)]"
  apply (simp add: handle_defs scenario_defs)
  apply (simp add: generate_def FindValidMoves_def in_bounds_iff king_scan.simps
        candidates_add_move add_move_count)
  apply (simp add: candidates_def)
  done

section \<open>Pieces that can move\<close>

lemma appends_moves_count: "appends_moves g g' \<Longrightarrow> validMoveCount g \<le> validMoveCount g'"
  by (simp add: appends_moves_def)

lemma king_scan_found_count:
  assumes "king_scan gs piece d False nx ny True c = (gs', c')" and "0 \<le> validMoveCount gs"
  shows "0 < validMoveCount gs' \<longleftrightarrow>
           0 < validMoveCount gs \<or>
           (in_bounds (nx + dir_dx d) (ny + dir_dy d) \<and>
            type (board gs (ny + dir_dy d) (nx + dir_dx d)) = NONE)"
  using assms
  by (subst (asm) king_scan.simps) (auto simp: Let_def add_move_count split: if_splits)

lemma king_scan_count:
  assumes "king_scan gs piece d False x y False c = (gs', c')" and "0 \<le> validMoveCount gs"
  shows "0 < validMoveCount gs' \<longleftrightarrow>
           0 < validMoveCount gs \<or>
           (in_bounds (x + dir_dx d) (y + dir_dy d) \<and>
            (type (board gs (y + dir_dy d) (x + dir_dx d)) = NONE \<or>
             (player (board gs (y + dir_dy d) (x + dir_dx d)) \<noteq> player piece \<and>
              in_bounds (x + 2 * dir_dx d) (y + 2 * dir_dy d) \<and>
              type (board gs (y + 2 * dir_dy d) (x + 2 * dir_dx d)) = NONE)))"
proof -
  let ?ax = "x + dir_dx d" and ?ay = "y + dir_dy d"
  consider (out) "\<not> in_bounds ?ax ?ay"
    | (free) "in_bounds ?ax ?ay" "type (board gs ?ay ?ax) = NONE"
    | (opp) "in_bounds ?ax ?ay" "type (board gs ?ay ?ax) \<noteq> NONE"
        "player (board gs ?ay ?ax) \<noteq> player piece"
    | (own) "in_bounds ?ax ?ay" "type (board gs ?ay ?ax) \<noteq> NONE"
        "player (board gs ?ay ?ax) = player piece"
    by blast
  then show ?thesis
  proof cases
    case out
    then show ?thesis
      using assms(1) by (simp add: king_scan_out)
  next
    case free
    have "king_scan (add_move gs ?ax ?ay) piece d False ?ax ?ay False c = (gs', c')"
      using assms(1) free by (subst (asm) king_scan.simps) (simp add: Let_def)
    then have "validMoveCount (add_move gs ?ax ?ay) \<le> validMoveCount gs'"
      using king_scan_appends appends_moves_count by blast
    then have "0 < validMoveCount gs'"
      using assms(2) by (auto simp: add_move_def split: if_splits)
    then show ?thesis
      using free by simp
  next
    case opp
    have "king_scan gs piece d False ?ax ?ay True c = (gs', c')"
      using assms(1) opp by (subst (asm) king_scan.simps) (simp add: Let_def)
    then show ?thesis
      using king_scan_found_count [of gs piece d ?ax ?ay c gs' c'] assms(2) opp
      by (simp add: algebra_simps)
  next
    case own
    then show ?thesis
      using assms(1) by (subst (asm) king_scan.simps) (auto simp: Let_def)
  qed
qed


lemma appends_moves_board: "appends_moves g g' \<Longrightarrow> board g' = board g"
  unfolding appends_moves_def
  by (metis (no_types, lifting) GameState.select_convs(1) GameState.surjective GameState.update_convs(8,9))

lemma candidates_empty_iff: "candidates gs = [] \<longleftrightarrow> validMoveCount gs \<le> 0"
  by (simp add: candidates_def)

lemma king_generate_nonempty:
  assumes "in_bounds x y" and "isKing (board gs y x)"
  shows "generate gs x y False \<noteq> Inr [] \<longleftrightarrow>
           (\<exists>d. ray_open (board gs) (player (board gs y x)) x y d)"
proof -
  let ?g0 = "gs\<lparr>validMoveCount := 0\<rparr>" and ?p = "board gs y x"
  let ?R = "ray_open (board gs) (player (board gs y x)) x y"
  obtain h1 k1 where s1: "king_scan ?g0 ?p DownRight False x y False False = (h1, k1)"
    by (cases "king_scan ?g0 ?p DownRight False x y False False")
  obtain h2 k2 where s2: "king_scan h1 ?p DownLeft False x y False k1 = (h2, k2)"
    by (cases "king_scan h1 ?p DownLeft False x y False k1")
  obtain h3 k3 where s3: "king_scan h2 ?p UpRight False x y False k2 = (h3, k3)"
    by (cases "king_scan h2 ?p UpRight False x y False k2")
  obtain h4 k4 where s4: "king_scan h3 ?p UpLeft False x y False k3 = (h4, k4)"
    by (cases "king_scan h3 ?p UpLeft False x y False k3")
  note a1 = king_scan_appends [OF s1] and a2 = king_scan_appends [OF s2]
    and a3 = king_scan_appends [OF s3] and a4 = king_scan_appends [OF s4]
  have b1: "board h1 = board gs" using appends_moves_board [OF a1] by simp
  have b2: "board h2 = board gs" using appends_moves_board [OF a2] b1 by simp
  have b3: "board h3 = board gs" using appends_moves_board [OF a3] b2 by simp
  have n1: "0 \<le> validMoveCount h1" using appends_moves_count [OF a1] by simp
  have n2: "0 \<le> validMoveCount h2" using appends_moves_count [OF a2] n1 by simp
  have n3: "0 \<le> validMoveCount h3" using appends_moves_count [OF a3] n2 by simp
  have c1: "0 < validMoveCount h1 \<longleftrightarrow> ?R DownRight"
    using king_scan_count [OF s1] by (simp add: ray_open_def)
  have c2: "0 < validMoveCount h2 \<longleftrightarrow> 0 < validMoveCount h1 \<or> ?R DownLeft"
    using king_scan_count [OF s2 n1] by (simp add: ray_open_def b1)
  have c3: "0 < validMoveCount h3 \<longleftrightarrow> 0 < validMoveCount h2 \<or> ?R UpRight"
    using king_scan_count [OF s3 n2] by (simp add: ray_open_def b2)
  have c4: "0 < validMoveCount h4 \<longleftrightarrow> 0 < validMoveCount h3 \<or> ?R UpLeft"
    using king_scan_count [OF s4 n3] by (simp add: ray_open_def b3)
  have "FindValidMoves gs x y False = Inr h4"
    using assms by (simp add: FindValidMoves_def Let_def s1 s2 s3 s4)
  then have "generate gs x y False \<noteq> Inr [] \<longleftrightarrow> 0 < validMoveCount h4"
    by (auto simp: generate_def candidates_empty_iff)
  also have "\<dots> \<longleftrightarrow> ?R DownRight \<or> ?R DownLeft \<or> ?R UpRight \<or> ?R UpLeft"
    using c1 c2 c3 c4 by blast
  also have "\<dots> \<longleftrightarrow> (\<exists>d. ?R d)"
    by (metis Direction.exhaust)
  finally show ?thesis .
qed

lemma man_generate_nonempty:
  assumes "in_bounds x y" and "\<not> isKing (board gs y x)"
  shows "generate gs x y False \<noteq> Inr [] \<longleftrightarrow>
           (\<exists>d\<in>set (man_directions (player (board gs y x))).
              ray_open (board gs) (player (board gs y x)) x y d)"
proof -
  consider (down) "man_directions (player (board gs y x)) = [DownRight, DownLeft]"
    | (up) "man_directions (player (board gs y x)) = [UpRight, UpLeft]"
    using man_directions_cases by blast
  then show ?thesis
  proof cases
    case down
    show ?thesis
      using assms(1)
      by (simp add: man_generate [OF assms down] down ray_open_def in_bounds_iff) auto
  next
    case up
    show ?thesis
      using assms(1)
      by (simp add: man_generate [OF assms up] up ray_open_def in_bounds_iff) auto
  qed
qed


lemma not_player_iff: "q \<noteq> p \<longleftrightarrow> q = opponent p"
  by (cases p; cases q) (simp_all add: opponent_def)

lemma ray_open_tests:
  assumes "in_bounds x y"
  shows "ray_open b p x y DownRight \<longleftrightarrow>
           move_bottom_right b x y \<or> capture_bottom_right b (opponent p) x y"
    and "ray_open b p x y DownLeft \<longleftrightarrow>
           move_bottom_left b x y \<or> capture_bottom_left b (opponent p) x y"
    and "ray_open b p x y UpRight \<longleftrightarrow>
           move_top_right b x y \<or> capture_top_right b (opponent p) x y"
    and "ray_open b p x y UpLeft \<longleftrightarrow>
           move_top_left b x y \<or> capture_top_left b (opponent p) x y"
  using assms
  by (auto simp: ray_open_def in_bounds_iff not_player_iff [of _ p]
        move_bottom_right_def move_bottom_left_def move_top_right_def move_top_left_def
        capture_bottom_right_def capture_bottom_left_def capture_top_right_def
        capture_top_left_def)

lemma ex_direction:
  "(\<exists>d. P d) \<longleftrightarrow> P DownRight \<or> P DownLeft \<or> P UpRight \<or> P UpLeft"
  by (metis Direction.exhaust)

lemma player_moves_iff:
  assumes "in_bounds x y" and "isKing (board gs y x) \<longleftrightarrow> type (board gs y x) = KING"
  shows "generate gs x y False \<noteq> Inr [] \<longleftrightarrow>
           (if player (board gs y x) = PLAYER1 then player1_moves (board gs) x y
            else player2_moves (board gs) x y)"
proof (cases "isKing (board gs y x)")
  case True
  show ?thesis
    using True assms(2)
    by (auto simp: king_generate_nonempty [OF assms(1) True] ex_direction
          ray_open_tests [OF assms(1)] player1_moves_def player2_moves_def king_moves_def
          opponent_def)
next
  case False
  show ?thesis
    using False assms(2)
    by (auto simp: man_generate_nonempty [OF assms(1) False] man_directions_def
          ray_open_tests [OF assms(1)] player1_moves_def player2_moves_def opponent_def)
qed

lemma check_cell_step:
  "check_cell b (x, y) (n1, n2, h1, h2) =
     (n1 + (if type (b y x) \<noteq> NONE \<and> player (b y x) = PLAYER1 then 1 else 0),
      n2 + (if type (b y x) \<noteq> NONE \<and> player (b y x) \<noteq> PLAYER1 then 1 else 0),
      h1 \<or> (type (b y x) \<noteq> NONE \<and> player (b y x) = PLAYER1 \<and> player1_moves b x y),
      h2 \<or> (type (b y x) \<noteq> NONE \<and> player (b y x) \<noteq> PLAYER1 \<and> player2_moves b x y))"
  by (auto simp: check_cell_def)

lemma fold_check_cell:
  "fold (check_cell b) cs (n1, n2, h1, h2) =
     (n1 + int (length (filter (\<lambda>(x, y). type (b y x) \<noteq> NONE \<and> player (b y x) = PLAYER1) cs)),
      n2 + int (length (filter (\<lambda>(x, y). type (b y x) \<noteq> NONE \<and> player (b y x) \<noteq> PLAYER1) cs)),
      h1 \<or> (\<exists>(x, y)\<in>set cs. type (b y x) \<noteq> NONE \<and> player (b y x) = PLAYER1 \<and> player1_moves b x y),
      h2 \<or> (\<exists>(x, y)\<in>set cs. type (b y x) \<noteq> NONE \<and> player (b y x) \<noteq> PLAYER1 \<and> player2_moves b x y))"
proof (induction cs arbitrary: n1 n2 h1 h2)
  case Nil
  then show ?case by simp
next
  case (Cons c cs)
  obtain x y where c: "c = (x, y)" by (cases c)
  show ?case
    unfolding c fold_simps check_cell_step Cons.IH
    by (simp add: disj_assoc)
qed

lemma set_all_cells: "set all_cells = {(x, y). in_bounds x y}"
  by (auto simp: all_cells_def in_bounds_iff image_iff)

lemma ranks_consistent_iff:
  "ranks_consistent b \<longleftrightarrow>
     (\<forall>x y. in_bounds x y \<and> type (b y x) \<noteq> NONE \<longrightarrow> (isKing (b y x) \<longleftrightarrow> type (b y x) = KING))"
  by (auto simp: ranks_consistent_def list_all_iff set_all_cells)


lemma length_filter_zero_iff: "int (length (filter P cs)) = 0 \<longleftrightarrow> (\<forall>c\<in>set cs. \<not> P c)"
  by (simp add: filter_empty_conv)

lemma CheckGameOver_unfold:
  "CheckGameOver gs p =
     (if \<not> (\<exists>x y. owns (board gs) PLAYER1 x y) then Some PLAYER2
      else if \<not> (\<exists>x y. owns (board gs) PLAYER2 x y) then Some PLAYER1
      else if p = PLAYER1 \<and> \<not> (\<exists>x y. owns (board gs) PLAYER1 x y \<and> player1_moves (board gs) x y)
      then Some PLAYER2
      else if p = PLAYER2 \<and> \<not> (\<exists>x y. owns (board gs) PLAYER2 x y \<and> player2_moves (board gs) x y)
      then Some PLAYER1
      else None)"
proof -
  let ?b = "board gs"
  have n1: "int (length (filter (\<lambda>(x, y). type (?b y x) \<noteq> NONE \<and> player (?b y x) = PLAYER1) all_cells)) = 0
            \<longleftrightarrow> \<not> (\<exists>x y. owns ?b PLAYER1 x y)"
    unfolding length_filter_zero_iff set_all_cells by (auto simp: owns_def)
  have n2: "int (length (filter (\<lambda>(x, y). type (?b y x) \<noteq> NONE \<and> player (?b y x) \<noteq> PLAYER1) all_cells)) = 0
            \<longleftrightarrow> \<not> (\<exists>x y. owns ?b PLAYER2 x y)"
    unfolding length_filter_zero_iff set_all_cells
    by (auto simp: owns_def not_player_iff [of _ PLAYER1] opponent_def)
  have h1: "(\<exists>(x, y)\<in>set all_cells. type (?b y x) \<noteq> NONE \<and> player (?b y x) = PLAYER1 \<and>
               player1_moves ?b x y)
            \<longleftrightarrow> (\<exists>x y. owns ?b PLAYER1 x y \<and> player1_moves ?b x y)"
    unfolding set_all_cells by (auto simp: owns_def)
  have h2: "(\<exists>(x, y)\<in>set all_cells. type (?b y x) \<noteq> NONE \<and> player (?b y x) \<noteq> PLAYER1 \<and>
               player2_moves ?b x y)
            \<longleftrightarrow> (\<exists>x y. owns ?b PLAYER2 x y \<and> player2_moves ?b x y)"
    unfolding set_all_cells
    by (auto simp: owns_def not_player_iff [of _ PLAYER1] opponent_def)
  show ?thesis
    unfolding CheckGameOver_def fold_check_cell
    by (simp add: n1 n2 h1 h2 del: of_nat_eq_0_iff length_0_conv filter_empty_conv) blast
qed

lemma blocked_board_owns:
  "owns blocked_board PLAYER1 x y \<longleftrightarrow> (x, y) = (0, 5)"
  "owns blocked_board PLAYER2 x y \<longleftrightarrow> (x, y) = (1, 6) \<or> (x, y) = (2, 7)"
  by (auto simp: owns_def blocked_board_def scenario_defs in_bounds_iff)

lemma blocked_board_consistent: "ranks_consistent blocked_board"
  by (auto simp: ranks_consistent_iff blocked_board_def scenario_defs)

lemma blocked_board_generate: "generate (idle_state blocked_board PLAYER1) 0 5 False = Inr []"
  by (subst man_generate [of _ _ _ DownRight DownLeft])
     (simp_all add: blocked_board_def scenario_defs in_bounds_iff man_directions_def)

section \<open>Candidates and capture candidates\<close>

lemma IsValidMove_from_iff:
  assumes "0 \<le> i" and "validMoveCount gs \<le> 12"
  shows "IsValidMove_from gs endX endY i =
           Inr (\<exists>j. i \<le> j \<and> j < validMoveCount gs \<and> validMoves gs j = (endX, endY))"
  using assms
proof (induction gs endX endY i rule: IsValidMove_from.induct)
  case (1 gs endX endY i)
  show ?case
  proof (cases "i < validMoveCount gs")
    case False
    then show ?thesis
      by (subst IsValidMove_from.simps) auto
  next
    case inr: True
    show ?thesis
    proof (cases "validMoves gs i = (endX, endY)")
      case True
      then show ?thesis
        using inr "1.prems" by (subst IsValidMove_from.simps) auto
    next
      case False
      have ne: "\<not> (fst (validMoves gs i) = endX \<and> snd (validMoves gs i) = endY)"
        using False by (cases "validMoves gs i") auto
      have "IsValidMove_from gs endX endY (i + 1) =
              Inr (\<exists>j. i + 1 \<le> j \<and> j < validMoveCount gs \<and> validMoves gs j = (endX, endY))"
        using "1.IH" inr ne "1.prems" by simp
      moreover have "(\<exists>j. i + 1 \<le> j \<and> j < validMoveCount gs \<and> validMoves gs j = (endX, endY))
                     \<longleftrightarrow> (\<exists>j. i \<le> j \<and> j < validMoveCount gs \<and> validMoves gs j = (endX, endY))"
        using False by (metis add1_zle_eq order_le_less)
      ultimately show ?thesis
        using inr ne "1.prems" by (subst IsValidMove_from.simps) auto
    qed
  qed
qed

lemma in_candidates_iff:
  "p \<in> set (candidates gs) \<longleftrightarrow> (\<exists>j. 0 \<le> j \<and> j < validMoveCount gs \<and> validMoves gs j = p)"
proof
  assume "p \<in> set (candidates gs)"
  then obtain i where "i < nat (validMoveCount gs)" "p = validMoves gs (int i)"
    by (auto simp: candidates_def)
  then show "\<exists>j. 0 \<le> j \<and> j < validMoveCount gs \<and> validMoves gs j = p"
    by (intro exI [of _ "int i"]) auto
next
  assume "\<exists>j. 0 \<le> j \<and> j < validMoveCount gs \<and> validMoves gs j = p"
  then obtain j where j: "0 \<le> j" "j < validMoveCount gs" "validMoves gs j = p" by blast
  then have "nat j \<in> {0..<nat (validMoveCount gs)}" "p = validMoves gs (int (nat j))"
    by auto
  then have "p \<in> (\<lambda>i. validMoves gs (int i)) ` {0..<nat (validMoveCount gs)}"
    by (rule image_eqI [rotated])
  then show "p \<in> set (candidates gs)"
    by (simp add: candidates_def)
qed

lemma IsValidMove_iff:
  assumes "validMoveCount gs \<le> 12"
  shows "IsValidMove gs sx sy x y = Inr ((x, y) \<in> set (candidates gs))"
  unfolding IsValidMove_def IsValidMove_from_iff [OF order_refl assms] in_candidates_iff
  by simp


lemma jump_path_shift:
  assumes "type (b (ny + dir_dy d) (nx + dir_dx d)) = NONE"
    and "jump_path b p (nx + dir_dx d) (ny + dir_dy d) d k"
  shows "jump_path b p nx ny d (k + 1)"
proof -
  have sh: "nx + dir_dx d + j * dir_dx d = nx + (j + 1) * dir_dx d"
    "ny + dir_dy d + j * dir_dy d = ny + (j + 1) * dir_dy d" for j
    by (simp_all add: algebra_simps)
  have free: "type (b (ny + j * dir_dy d) (nx + j * dir_dx d)) = NONE"
    if "1 \<le> j" "j < k" for j
  proof (cases "j = 1")
    case True
    then show ?thesis using assms(1) by simp
  next
    case False
    then have "1 \<le> j - 1 \<and> j - 1 < k - 1" using that by simp
    then have "type (b (ny + dir_dy d + (j - 1) * dir_dy d) (nx + dir_dx d + (j - 1) * dir_dx d)) = NONE"
      using assms(2) unfolding jump_path_def by blast
    then show ?thesis
      unfolding sh by simp
  qed
  show ?thesis
    using assms(2) free unfolding jump_path_def sh by simp
qed

lemma king_scan_found_capture:
  assumes "king_scan gs piece d True nx ny True c = (gs', c')" and "0 \<le> validMoveCount gs"
  shows "candidates gs' = candidates gs \<or>
         (candidates gs' = candidates gs @ [(nx + dir_dx d, ny + dir_dy d)] \<and>
          in_bounds (nx + dir_dx d) (ny + dir_dy d) \<and>
          type (board gs (ny + dir_dy d) (nx + dir_dx d)) = NONE)"
  using assms
  by (subst (asm) king_scan.simps)
     (auto simp: Let_def candidates_add_move split: if_splits)

lemma king_scan_capture:
  assumes "king_scan gs piece d a nx ny f c = (gs', c')"
    and "a" and "\<not> f" and "0 \<le> validMoveCount gs"
  shows "candidates gs' = candidates gs \<or>
         (\<exists>k. candidates gs' = candidates gs @ [(nx + k * dir_dx d, ny + k * dir_dy d)] \<and>
              jump_path (board gs) (player piece) nx ny d k)"
  using assms
proof (induction gs piece d a nx ny f c rule: king_scan.induct)
  case (1 gs piece d a nx0 ny0 f c)
  let ?ax = "nx0 + dir_dx d" and ?ay = "ny0 + dir_dy d"
  consider (out) "\<not> in_bounds ?ax ?ay"
    | (free) "in_bounds ?ax ?ay" "type (board gs ?ay ?ax) = NONE"
    | (opp) "in_bounds ?ax ?ay" "type (board gs ?ay ?ax) \<noteq> NONE"
        "player (board gs ?ay ?ax) \<noteq> player piece"
    | (own) "in_bounds ?ax ?ay" "type (board gs ?ay ?ax) \<noteq> NONE"
        "player (board gs ?ay ?ax) = player piece"
    by blast
  then show ?case
  proof cases
    case out
    then show ?thesis
      using "1.prems"(1) by (simp add: king_scan_out)
  next
    case free
    have r: "king_scan gs piece d a ?ax ?ay f c = (gs', c')"
      using "1.prems" free by (subst (asm) king_scan.simps) (simp add: Let_def)
    have "candidates gs' = candidates gs \<or>
         (\<exists>k. candidates gs' = candidates gs @ [(?ax + k * dir_dx d, ?ay + k * dir_dy d)] \<and>
              jump_path (board gs) (player piece) ?ax ?ay d k)"
      using "1.IH"(2) [OF refl refl _ free(2) _ _ r] free(1) "1.prems"(2,3,4) by simp
    then show ?thesis
    proof
      assume "candidates gs' = candidates gs"
      then show ?thesis by simp
    next
      assume "\<exists>k. candidates gs' = candidates gs @ [(?ax + k * dir_dx d, ?ay + k * dir_dy d)] \<and>
              jump_path (board gs) (player piece) ?ax ?ay d k"
      then obtain k where k: "candidates gs' = candidates gs @ [(?ax + k * dir_dx d, ?ay + k * dir_dy d)]"
        and jp: "jump_path (board gs) (player piece) ?ax ?ay d k" by blast
      have "jump_path (board gs) (player piece) nx0 ny0 d (k + 1)"
        using jump_path_shift [OF free(2) jp] .
      moreover have "candidates gs' = candidates gs @ [(nx0 + (k + 1) * dir_dx d, ny0 + (k + 1) * dir_dy d)]"
        using k by (simp add: algebra_simps)
      ultimately show ?thesis by blast
    qed
  next
    case opp
    have r: "king_scan gs piece d True ?ax ?ay True c = (gs', c')"
      using "1.prems" opp by (subst (asm) king_scan.simps) (simp add: Let_def)
    have "candidates gs' = candidates gs \<or>
         (candidates gs' = candidates gs @ [(?ax + dir_dx d, ?ay + dir_dy d)] \<and>
          in_bounds (?ax + dir_dx d) (?ay + dir_dy d) \<and>
          type (board gs (?ay + dir_dy d) (?ax + dir_dx d)) = NONE)"
      using king_scan_found_capture [OF r "1.prems"(4)] .
    then show ?thesis
    proof
      assume "candidates gs' = candidates gs"
      then show ?thesis by simp
    next
      assume l: "candidates gs' = candidates gs @ [(?ax + dir_dx d, ?ay + dir_dy d)] \<and>
          in_bounds (?ax + dir_dx d) (?ay + dir_dy d) \<and>
          type (board gs (?ay + dir_dy d) (?ax + dir_dx d)) = NONE"
      have e2: "nx0 + 2 * dir_dx d = ?ax + dir_dx d" "ny0 + 2 * dir_dy d = ?ay + dir_dy d"
        by simp_all
      have "jump_path (board gs) (player piece) nx0 ny0 d 2"
        unfolding jump_path_def e2 using l opp by auto
      moreover have "candidates gs' = candidates gs @ [(nx0 + 2 * dir_dx d, ny0 + 2 * dir_dy d)]"
        unfolding e2 using l by simp
      ultimately show ?thesis by blast
    qed
  next
    case own
    then show ?thesis
      using "1.prems"(1) by (subst (asm) king_scan.simps) (auto simp: Let_def)
  qed
qed


lemma king_fold_capture:
  assumes "fold (\<lambda>d (g, ca). king_scan g piece d True x y False ca) ds (gs, c) = (gs', c')"
    and "0 \<le> validMoveCount gs" and "p \<in> set (candidates gs')"
  shows "p \<in> set (candidates gs) \<or>
         (\<exists>d k. p = (x + k * dir_dx d, y + k * dir_dy d) \<and>
                 jump_path (board gs) (player piece) x y d k)"
  using assms
proof (induction ds arbitrary: gs c)
  case Nil
  then show ?case by simp
next
  case (Cons d ds)
  obtain h k where hk: "king_scan gs piece d True x y False c = (h, k)"
    by (cases "king_scan gs piece d True x y False c")
  have ap: "appends_moves gs h"
    using king_scan_appends [OF hk] .
  have bh: "board h = board gs"
    using appends_moves_board [OF ap] .
  have nh: "0 \<le> validMoveCount h"
    using appends_moves_count [OF ap] Cons.prems(2) by simp
  have rest: "fold (\<lambda>d (g, ca). king_scan g piece d True x y False ca) ds (h, k) = (gs', c')"
    using Cons.prems(1) by (simp add: hk)
  have "p \<in> set (candidates h) \<or>
         (\<exists>d k. p = (x + k * dir_dx d, y + k * dir_dy d) \<and>
                 jump_path (board gs) (player piece) x y d k)"
    using Cons.IH [OF rest nh Cons.prems(3)] bh by simp
  moreover have "p \<in> set (candidates gs) \<or>
         (\<exists>d k. p = (x + k * dir_dx d, y + k * dir_dy d) \<and>
                 jump_path (board gs) (player piece) x y d k)"
    if "p \<in> set (candidates h)"
    using king_scan_capture [OF hk _ _ Cons.prems(2)] that by auto
  ultimately show ?case by blast
qed

lemma jump_path_two:
  assumes "in_bounds (sx + 2 * dir_dx d) (sy + 2 * dir_dy d)"
    and "type (b (sy + 2 * dir_dy d) (sx + 2 * dir_dx d)) = NONE"
    and "type (b (sy + dir_dy d) (sx + dir_dx d)) \<noteq> NONE"
    and "player (b (sy + dir_dy d) (sx + dir_dx d)) \<noteq> p"
  shows "jump_path b p sx sy d 2"
  using assms by (auto simp: jump_path_def)

lemma man_capture_path:
  assumes "in_bounds sx sy" and "\<not> isKing (board gs sy sx)"
    and "man_directions (player (board gs sy sx)) = [d1, d2]"
    and "generate gs sx sy True = Inr cs" and "(x, y) \<in> set cs"
  shows "\<exists>d. x = sx + 2 * dir_dx d \<and> y = sy + 2 * dir_dy d \<and>
           jump_path (board gs) (player (board gs sy sx)) sx sy d 2"
proof -
  have "(x = sx + 2 * dir_dx d1 \<and> y = sy + 2 * dir_dy d1 \<and>
         jump_path (board gs) (player (board gs sy sx)) sx sy d1 2) \<or>
        (x = sx + 2 * dir_dx d2 \<and> y = sy + 2 * dir_dy d2 \<and>
         jump_path (board gs) (player (board gs sy sx)) sx sy d2 2)"
    using assms(4,5) unfolding man_generate [OF assms(1,2,3)]
    by (auto split: if_splits intro: jump_path_two)
  then show ?thesis by blast
qed

lemma capture_candidate_path:
  assumes "in_bounds sx sy" and "generate gs sx sy True = Inr cs" and "(x, y) \<in> set cs"
  shows "\<exists>d k. x = sx + k * dir_dx d \<and> y = sy + k * dir_dy d \<and>
           jump_path (board gs) (player (board gs sy sx)) sx sy d k \<and>
           (\<not> isKing (board gs sy sx) \<longrightarrow> k = 2)"
proof (cases "isKing (board gs sy sx)")
  case True
  let ?g0 = "gs\<lparr>validMoveCount := 0\<rparr>" and ?p = "board gs sy sx"
  obtain h k where hk:
    "fold (\<lambda>d (g, ca). king_scan g ?p d True sx sy False ca)
       [DownRight, DownLeft, UpRight, UpLeft] (?g0, False) = (h, k)"
    by (cases "fold (\<lambda>d (g, ca). king_scan g ?p d True sx sy False ca)
       [DownRight, DownLeft, UpRight, UpLeft] (?g0, False)")
  have "FindValidMoves gs sx sy True = Inr (if \<not> k then h\<lparr>validMoveCount := 0\<rparr> else h)"
    using assms(1) True hk unfolding FindValidMoves_def Let_def by simp
  then have "cs = (if \<not> k then [] else candidates h)"
    using assms(2) by (auto simp: generate_def)
  then have "(x, y) \<in> set (candidates h)"
    using assms(3) by (auto split: if_splits)
  then show ?thesis
    using king_fold_capture [OF hk, of "(x, y)"] True by auto
next
  case False
  obtain d1 d2 where "man_directions (player (board gs sy sx)) = [d1, d2]"
    using man_directions_cases by blast
  then show ?thesis
    using man_capture_path [OF assms(1) False _ assms(2,3)] False by blast
qed

section \<open>Resolving a capture along a jump path\<close>

lemma ray_in_bounds:
  assumes "in_bounds sx sy" and "in_bounds (sx + k * dir_dx d) (sy + k * dir_dy d)"
    and "0 \<le> j" and "j \<le> k"
  shows "in_bounds (sx + j * dir_dx d) (sy + j * dir_dy d)"
  using assms by (cases d) (auto simp: in_bounds_iff)

lemma ray_direction:
  assumes "1 \<le> k"
  shows "(if sx + k * dir_dx d > sx then 1 else -1) = dir_dx d"
    and "(if sy + k * dir_dy d > sy then 1 else -1) = dir_dy d"
  using assms by (cases d; simp)+

lemma ray_distinct:
  assumes "j < k"
  shows "sx + j * dir_dx d \<noteq> sx + k * dir_dx d" and "sy + j * dir_dy d \<noteq> sy + k * dir_dy d"
  using assms by (cases d; simp)+

lemma capture_scan_path:
  assumes "in_bounds (selectedX gs) (selectedY gs)"
    and "jump_path (board gs) (currentPlayer gs) (selectedX gs) (selectedY gs) d k"
    and "1 \<le> j" and "j \<le> k - 1"
  shows "capture_scan gs (selectedX gs + k * dir_dx d) (selectedY gs + k * dir_dy d)
           (selectedX gs + j * dir_dx d) (selectedY gs + j * dir_dy d) =
         Inr (add_score (remove_piece gs (selectedX gs + (k - 1) * dir_dx d)
                           (selectedY gs + (k - 1) * dir_dy d)), True)"
  using assms(3,4)
proof (induction "nat (k - 1 - j)" arbitrary: j)
  case 0
  then have j: "j = k - 1" by simp
  have inb: "in_bounds (selectedX gs + j * dir_dx d) (selectedY gs + j * dir_dy d)"
    using ray_in_bounds [OF assms(1), of k d j] assms(2) "0.prems"
    by (simp add: jump_path_def)
  have opp: "type (board gs (selectedY gs + j * dir_dy d) (selectedX gs + j * dir_dx d)) \<noteq> NONE"
    "player (board gs (selectedY gs + j * dir_dy d) (selectedX gs + j * dir_dx d)) \<noteq> currentPlayer gs"
    using assms(2) by (simp_all add: jump_path_def j)
  have ne: "selectedX gs + j * dir_dx d \<noteq> selectedX gs + k * dir_dx d"
    "selectedY gs + j * dir_dy d \<noteq> selectedY gs + k * dir_dy d"
    using ray_distinct [where j = j and k = k and d = d] j by simp_all
  show ?case
    using inb opp ne
    by (subst capture_scan.simps) (simp add: Let_def j)
next
  case (Suc n)
  then have lt: "j < k - 1" by simp
  have inb: "in_bounds (selectedX gs + j * dir_dx d) (selectedY gs + j * dir_dy d)"
    using ray_in_bounds [OF assms(1), of k d j] assms(2) Suc.prems
    by (simp add: jump_path_def)
  have free: "type (board gs (selectedY gs + j * dir_dy d) (selectedX gs + j * dir_dx d)) = NONE"
    using assms(2) Suc.prems(1) lt unfolding jump_path_def by blast
  have k1: "1 \<le> k" using Suc.prems by simp
  have nxt: "capture_scan gs (selectedX gs + k * dir_dx d) (selectedY gs + k * dir_dy d)
           (selectedX gs + (j + 1) * dir_dx d) (selectedY gs + (j + 1) * dir_dy d) =
         Inr (add_score (remove_piece gs (selectedX gs + (k - 1) * dir_dx d)
                           (selectedY gs + (k - 1) * dir_dy d)), True)"
    using Suc.hyps(1) [of "j + 1"] Suc.hyps(2) Suc.prems lt by simp
  have sh: "selectedX gs + j * dir_dx d + dir_dx d = selectedX gs + (j + 1) * dir_dx d"
    "selectedY gs + j * dir_dy d + dir_dy d = selectedY gs + (j + 1) * dir_dy d"
    by (simp_all add: algebra_simps)
  have ne: "selectedX gs + j * dir_dx d \<noteq> selectedX gs + k * dir_dx d"
    "selectedY gs + j * dir_dy d \<noteq> selectedY gs + k * dir_dy d"
    using ray_distinct [where j = j and k = k and d = d] lt by simp_all
  have dir: "(if selectedX gs + k * dir_dx d > selectedX gs then 1 else -1) = dir_dx d"
    "(if selectedY gs + k * dir_dy d > selectedY gs then 1 else -1) = dir_dy d"
    using ray_direction [OF k1] by blast+
  have "capture_scan gs (selectedX gs + k * dir_dx d) (selectedY gs + k * dir_dy d)
           (selectedX gs + j * dir_dx d) (selectedY gs + j * dir_dy d) =
        capture_scan gs (selectedX gs + k * dir_dx d) (selectedY gs + k * dir_dy d)
           (selectedX gs + j * dir_dx d + dir_dx d) (selectedY gs + j * dir_dy d + dir_dy d)"
    apply (subst capture_scan.simps)
    unfolding Let_def dir
    using inb free ne by simp
  then show ?case
    unfolding sh nxt .
qed

lemma resolve_capture_path:
  assumes "in_bounds (selectedX gs) (selectedY gs)"
    and "jump_path (board gs) (currentPlayer gs) (selectedX gs) (selectedY gs) d k"
    and "\<not> isKing (board gs (selectedY gs) (selectedX gs)) \<longrightarrow> k = 2"
  shows "\<exists>ic. resolve_capture gs (selectedX gs + k * dir_dx d) (selectedY gs + k * dir_dy d) =
           Inr ((add_score (remove_piece gs (selectedX gs + (k - 1) * dir_dx d)
                              (selectedY gs + (k - 1) * dir_dy d)))\<lparr>isCapturing := True\<rparr>, ic)"
proof -
  have k2: "2 \<le> k" using assms(2) by (simp add: jump_path_def)
  then have k1: "1 \<le> k" by simp
  have far: "\<bar>selectedX gs - (selectedX gs + k * dir_dx d)\<bar> > 1"
    "\<bar>selectedY gs - (selectedY gs + k * dir_dy d)\<bar> > 1"
    using k2 by (cases d; simp)+
  show ?thesis
  proof (cases "isKing (board gs (selectedY gs) (selectedX gs))")
    case True
    have "capture_scan gs (selectedX gs + k * dir_dx d) (selectedY gs + k * dir_dy d)
           (selectedX gs + dir_dx d) (selectedY gs + dir_dy d) =
         Inr (add_score (remove_piece gs (selectedX gs + (k - 1) * dir_dx d)
                           (selectedY gs + (k - 1) * dir_dy d)), True)"
      using capture_scan_path [OF assms(1,2), of 1] k2 by simp
    then show ?thesis
      using True far k2
      by (cases d) (simp_all add: resolve_capture_def Let_def)
  next
    case False
    then have k: "k = 2" using assms(3) by simp
    have mid: "(selectedX gs + (selectedX gs + 2 * dir_dx d)) div 2 = selectedX gs + dir_dx d"
      "(selectedY gs + (selectedY gs + 2 * dir_dy d)) div 2 = selectedY gs + dir_dy d"
      by simp_all
    show ?thesis
      using False far unfolding k
      by (auto simp: resolve_capture_def Let_def mid)
  qed
qed

section \<open>Counting pieces, and the effect of a capture\<close>

lemma distinct_all_cells: "distinct all_cells"
  unfolding all_cells_def
  by (rule distinct_concat) (auto simp: distinct_map inj_on_def)

lemma piece_count_card: "piece_count b p = int (card {(x, y). owns b p x y})"
proof -
  have "{c. (case c of (x, y) \<Rightarrow> type (b y x) \<noteq> NONE \<and> player (b y x) = p)} \<inter> set all_cells
        = {(x, y). owns b p x y}"
    by (auto simp: set_all_cells owns_def)
  then show ?thesis
    unfolding piece_count_def distinct_length_filter [OF distinct_all_cells] by simp
qed

lemma finite_owns: "finite {(x, y). owns b p x y}"
proof -
  have "{(x, y). owns b p x y} \<subseteq> set all_cells"
    by (auto simp: set_all_cells owns_def)
  then show ?thesis
    using finite_subset by blast
qed

lemma piece_count_remove:
  assumes "owns b p cx cy"
    and "\<And>x y. owns b' p x y \<longleftrightarrow> owns b p x y \<and> (x, y) \<noteq> (cx, cy)"
  shows "piece_count b' p = piece_count b p - 1"
proof -
  have "{(x, y). owns b' p x y} = {(x, y). owns b p x y} - {(cx, cy)}"
    using assms(2) by auto
  moreover have "(cx, cy) \<in> {(x, y). owns b p x y}"
    using assms(1) by simp
  ultimately have "card {(x, y). owns b' p x y} = card {(x, y). owns b p x y} - 1"
    by (simp add: finite_owns)
  moreover have "0 < card {(x, y). owns b p x y}"
    using \<open>(cx, cy) \<in> {(x, y). owns b p x y}\<close> finite_owns card_gt_0_iff by blast
  ultimately show ?thesis
    unfolding piece_count_card by simp
qed

lemma piece_count_move:
  assumes "owns b p sx sy" and "\<not> owns b p x y"
    and "\<And>a c. owns b' p a c \<longleftrightarrow> (owns b p a c \<and> (a, c) \<noteq> (sx, sy)) \<or> (a, c) = (x, y)"
  shows "piece_count b' p = piece_count b p"
proof -
  let ?A = "{(x, y). owns b p x y}"
  have eq: "{(x, y). owns b' p x y} = insert (x, y) (?A - {(sx, sy)})"
    using assms(3) by auto
  have src: "(sx, sy) \<in> ?A" and dst: "(x, y) \<notin> ?A - {(sx, sy)}"
    using assms(1,2) by simp_all
  have "card (insert (x, y) (?A - {(sx, sy)})) = Suc (card (?A - {(sx, sy)}))"
    using dst finite_owns [of b p] by (intro card_insert_disjoint) simp_all
  also have "\<dots> = card ?A"
    using card_Suc_Diff1 [OF finite_owns src] .
  finally have "card (insert (x, y) (?A - {(sx, sy)})) = card ?A" .
  then show ?thesis
    unfolding piece_count_card eq by simp
qed


lemma between_cells_ray:
  assumes "1 \<le> k"
  shows "between_cells sx sy (sx + k * dir_dx d) (sy + k * dir_dy d) =
           map (\<lambda>j. (sx + j * dir_dx d, sy + j * dir_dy d)) [1..k - 1]"
  using assms by (cases d) (simp_all add: between_cells_def)

lemma filter_between_cells:
  assumes "jump_path b p sx sy d k"
  shows "filter (\<lambda>(px, py). type (b py px) \<noteq> NONE)
           (between_cells sx sy (sx + k * dir_dx d) (sy + k * dir_dy d)) =
         [(sx + (k - 1) * dir_dx d, sy + (k - 1) * dir_dy d)]"
proof -
  have k2: "2 \<le> k" using assms by (simp add: jump_path_def)
  have split: "[1..k - 1] = [1..k - 2] @ [k - 1]"
    using k2 upto_rec2 [of 1 "k - 1"] by simp
  have none: "filter (\<lambda>j. type (b (sy + j * dir_dy d) (sx + j * dir_dx d)) \<noteq> NONE) [1..k - 2] = []"
    using assms by (auto simp: jump_path_def filter_empty_conv)
  have last: "type (b (sy + (k - 1) * dir_dy d) (sx + (k - 1) * dir_dx d)) \<noteq> NONE"
    using assms by (simp add: jump_path_def)
  have "filter (\<lambda>(px, py). type (b py px) \<noteq> NONE)
          (map (\<lambda>j. (sx + j * dir_dx d, sy + j * dir_dy d)) [1..k - 1]) =
        map (\<lambda>j. (sx + j * dir_dx d, sy + j * dir_dy d))
          (filter (\<lambda>j. type (b (sy + j * dir_dy d) (sx + j * dir_dx d)) \<noteq> NONE) [1..k - 1])"
    by (simp add: filter_map comp_def)
  also have "\<dots> = [(sx + (k - 1) * dir_dx d, sy + (k - 1) * dir_dy d)]"
    by (subst split) (simp add: none last del: upto.simps)
  finally show ?thesis
    using k2 by (simp add: between_cells_ray)
qed

lemma PromoteToKing_result:
  assumes "PromoteToKing g x y = Inr g'"
  shows "g' = g \<or> g' = g\<lparr>board := set_cell (board g) x y ((board g y x)\<lparr>isKing := True, type := KING\<rparr>)\<rparr>"
  using assms by (auto simp: PromoteToKing_def split: if_splits)

lemma apply_move_after:
  assumes "in_bounds (selectedX gs) (selectedY gs)" and "in_bounds x y"
    and "resolve_capture gs x y = Inr (g1, ic)"
  shows "\<exists>gs'. apply_move gs x y = Inr gs' \<and>
           (\<forall>px py. (px, py) \<noteq> (x, y) \<longrightarrow> board gs' py px = board (move_piece g1 x y) py px) \<and>
           (board gs' y x = board (move_piece g1 x y) y x \<or>
            board gs' y x = (board (move_piece g1 x y) y x)\<lparr>isKing := True, type := KING\<rparr>) \<and>
           player1Score gs' = player1Score g1 \<and> player2Score gs' = player2Score g1 \<and>
           (pieceSelected gs' \<longrightarrow>
              selectedX gs' = x \<and> selectedY gs' = y \<and> isCapturing gs' = isCapturing g1 \<and>
              currentPlayer gs' = currentPlayer g1 \<and>
              generate gs' x y True = Inr (candidates gs') \<and> ic)"
proof -
  have core: "(\<forall>px py. (px, py) \<noteq> (x, y) \<longrightarrow> board gs3 py px = board (move_piece g1 x y) py px) \<and>
           (board gs3 y x = board (move_piece g1 x y) y x \<or>
            board gs3 y x = (board (move_piece g1 x y) y x)\<lparr>isKing := True, type := KING\<rparr>) \<and>
           player1Score gs3 = player1Score g1 \<and> player2Score gs3 = player2Score g1 \<and>
           isCapturing gs3 = isCapturing g1 \<and> currentPlayer gs3 = currentPlayer g1"
    if "PromoteToKing (move_piece g1 x y) x y = Inr gs3" for gs3
    using PromoteToKing_result [OF that]
    by (auto simp: move_piece_def Let_def)
  show ?thesis
    using assms(1,2)
  proof (cases rule: apply_move_cases [of gs x y])
    case (promoted gs1 ic' gs3)
    then have "gs1 = g1" using assms(3) by simp
    then show ?thesis
      using promoted core [of gs3] by simp
  next
    case (chain gs1 ic' gs3 gs4)
    then have g: "gs1 = g1" and i: "ic" using assms(3) by simp_all
    let ?r = "gs4\<lparr>pieceSelected := True, selectedX := x, selectedY := y\<rparr>"
    have "generate ?r x y True = generate gs3 x y True"
      using FindValidMoves_fields(1) [OF chain(4)] by (intro generate_agree) simp
    also have "\<dots> = Inr (candidates gs4)"
      using chain(4) by (simp add: generate_def)
    also have "candidates gs4 = candidates ?r"
      by (simp add: candidates_def)
    finally have "generate ?r x y True = Inr (candidates ?r)" .
    then show ?thesis
      using chain g i core [of gs3] FindValidMoves_fields(1,2,3,4,8) [OF chain(4)]
      by simp
  next
    case (ended gs1 ic' gs3 gs4)
    then have "gs1 = g1" using assms(3) by simp
    then show ?thesis
      using ended core [of gs3] FindValidMoves_fields(1,3,4) [OF ended(4)] by simp
  qed
qed

lemma capture_applied:
  assumes own: "owns (board gs) (currentPlayer gs) (selectedX gs) (selectedY gs)"
    and gen: "generate gs (selectedX gs) (selectedY gs) True = Inr cs"
    and mem: "(x, y) \<in> set cs"
  shows "in_bounds x y \<and>
         (\<exists>gs'. apply_move gs x y = Inr gs' \<and> captures_one gs x y gs' \<and>
            (pieceSelected gs' \<longrightarrow> selectedX gs' = x \<and> selectedY gs' = y \<and> chain_state gs'))"
proof -
  let ?sx = "selectedX gs" and ?sy = "selectedY gs" and ?cur = "currentPlayer gs"
  let ?b = "board gs"
  have sel: "in_bounds ?sx ?sy" and styp: "type (?b ?sy ?sx) \<noteq> NONE"
    and spl: "player (?b ?sy ?sx) = ?cur"
    using own by (simp_all add: owns_def)
  obtain d k where x: "x = ?sx + k * dir_dx d" and y: "y = ?sy + k * dir_dy d"
    and jp: "jump_path ?b ?cur ?sx ?sy d k"
    and man: "\<not> isKing (?b ?sy ?sx) \<longrightarrow> k = 2"
    using capture_candidate_path [OF sel gen mem] spl by auto
  let ?cx = "?sx + (k - 1) * dir_dx d" and ?cy = "?sy + (k - 1) * dir_dy d"
  have k2: "2 \<le> k" using jp by (simp add: jump_path_def)
  have dst: "in_bounds x y" and dfree: "type (?b y x) = NONE"
    and ctyp: "type (?b ?cy ?cx) \<noteq> NONE" and cpl: "player (?b ?cy ?cx) \<noteq> ?cur"
    using jp by (simp_all add: jump_path_def x y)
  have cap: "in_bounds ?cx ?cy"
    using ray_in_bounds [OF sel, of k d "k - 1"] dst k2 by (simp add: x y)
  have xcd: "?cx \<noteq> x" and xcs: "?cx \<noteq> ?sx" and xsd: "?sx \<noteq> x"
    using k2 by (cases d; simp add: x)+
  have ne_cd: "(?cx, ?cy) \<noteq> (x, y)" and ne_cs: "(?cx, ?cy) \<noteq> (?sx, ?sy)"
    and ne_sd: "(?sx, ?sy) \<noteq> (x, y)"
    using xcd xcs xsd by simp_all
  let ?g1 = "(add_score (remove_piece gs ?cx ?cy))\<lparr>isCapturing := True\<rparr>"
  obtain ic where rc: "resolve_capture gs x y = Inr (?g1, ic)"
    using resolve_capture_path [OF sel jp man] unfolding x y by blast
  obtain gs' where am: "apply_move gs x y = Inr gs'"
    and oth: "\<And>px py. (px, py) \<noteq> (x, y) \<Longrightarrow> board gs' py px = board (move_piece ?g1 x y) py px"
    and dest: "board gs' y x = board (move_piece ?g1 x y) y x \<or>
            board gs' y x = (board (move_piece ?g1 x y) y x)\<lparr>isKing := True, type := KING\<rparr>"
    and s1: "player1Score gs' = player1Score ?g1" and s2: "player2Score gs' = player2Score ?g1"
    and keep: "pieceSelected gs' \<longrightarrow>
              selectedX gs' = x \<and> selectedY gs' = y \<and> isCapturing gs' = isCapturing ?g1 \<and>
              currentPlayer gs' = currentPlayer ?g1 \<and>
              generate gs' x y True = Inr (candidates gs')"
    using apply_move_after [OF sel dst rc] by auto
  have mp: "board (move_piece ?g1 x y) py px =
      (if px = ?sx \<and> py = ?sy then (?b py px)\<lparr>type := NONE\<rparr>
       else if px = x \<and> py = y then ?b ?sy ?sx
       else if px = ?cx \<and> py = ?cy then (?b py px)\<lparr>type := NONE\<rparr>
       else ?b py px)" for px py
    using xcd xcs xsd by (simp add: move_piece_board remove_piece_board)
  have d_typ: "type (board gs' y x) \<noteq> NONE" and d_pl: "player (board gs' y x) = ?cur"
    using dest xsd styp spl by (auto simp: mp)
  have s_typ: "type (board gs' ?sy ?sx) = NONE"
    using oth [OF ne_sd] xsd by (simp add: mp)
  have c_typ: "type (board gs' ?cy ?cx) = NONE"
    using oth [OF ne_cd] xcs xcd by (simp add: mp)
  have rest: "board gs' py px = ?b py px"
    if "(px, py) \<noteq> (x, y)" "(px, py) \<noteq> (?sx, ?sy)" "(px, py) \<noteq> (?cx, ?cy)" for px py
    using oth [OF that(1)] that by (auto simp: mp)
  have own_cur: "owns (board gs') ?cur a c \<longleftrightarrow>
                   (owns ?b ?cur a c \<and> (a, c) \<noteq> (?sx, ?sy)) \<or> (a, c) = (x, y)" for a c
  proof (cases "(a, c) = (x, y) \<or> (a, c) = (?sx, ?sy) \<or> (a, c) = (?cx, ?cy)")
    case True
    then show ?thesis
      using d_typ d_pl s_typ c_typ dst cpl ne_sd ne_cd by (auto simp: owns_def)
  next
    case False
    then show ?thesis
      using rest [of a c] by (auto simp: owns_def)
  qed
  have own_opp: "owns (board gs') (opponent ?cur) a c \<longleftrightarrow>
                   owns ?b (opponent ?cur) a c \<and> (a, c) \<noteq> (?cx, ?cy)" for a c
  proof (cases "(a, c) = (x, y) \<or> (a, c) = (?sx, ?sy) \<or> (a, c) = (?cx, ?cy)")
    case True
    then show ?thesis
      using d_typ d_pl s_typ c_typ dfree spl ne_cs by (auto simp: owns_def opponent_def)
  next
    case False
    then show ?thesis
      using rest [of a c] by (auto simp: owns_def)
  qed
  have copp: "owns ?b (opponent ?cur) ?cx ?cy"
    using cap ctyp cpl by (simp add: owns_def not_player_iff [symmetric])
  have n_opp: "piece_count (board gs') (opponent ?cur) = piece_count ?b (opponent ?cur) - 1"
    using piece_count_remove [OF copp own_opp] .
  have n_cur: "piece_count (board gs') ?cur = piece_count ?b ?cur"
    using piece_count_move [OF own _ own_cur] dfree by (simp add: owns_def)
  have sc: "score gs' ?cur = score gs ?cur + 1"
    "score gs' (opponent ?cur) = score gs (opponent ?cur)"
    using s1 s2 by (auto simp: score_def add_score_def opponent_def)
  have jumped: "filter (\<lambda>(px, py). type (?b py px) \<noteq> NONE) (between_cells ?sx ?sy x y) = [(?cx, ?cy)]"
    using filter_between_cells [OF jp] by (simp add: x y)
  have "captures_one gs x y gs'"
    unfolding captures_one_def
    using s_typ d_typ d_pl jumped c_typ n_opp n_cur sc cpl
    by (auto simp: not_player_iff)
  moreover have "chain_state gs'" if "pieceSelected gs'"
    using that keep d_typ d_pl dst by (simp add: chain_state_def owns_def)
  ultimately show ?thesis
    using am keep dst by blast
qed

lemma candidates_length_le:
  assumes "generate gs x y a = Inr (candidates g)"
  shows "validMoveCount g \<le> 12"
proof -
  obtain gs' where f: "FindValidMoves gs x y a = Inr gs'" and c: "candidates g = candidates gs'"
    using assms by (auto simp: generate_def split: sum.splits)
  have "appends_moves (gs\<lparr>validMoveCount := 0\<rparr>) gs'"
    using FindValidMoves_appends [OF FindValidMoves_in_bounds [OF f], of gs a] f by simp
  then have "validMoveCount gs' \<le> 12"
    by (simp add: appends_moves_def)
  moreover have "length (candidates g) = length (candidates gs')"
    using c by simp
  ultimately show ?thesis
    by (simp add: candidates_def)
qed

lemma chain_scenario_is_chain: "chain_state chain_scenario"
proof -
  have "generate chain_scenario 2 2 True = Inr [(4, 4)]"
    by (subst man_generate [of _ _ _ DownRight DownLeft])
       (simp_all add: scenario_defs in_bounds_iff man_directions_def)
  moreover have "candidates chain_scenario = [(4, 4)]"
    by (simp add: candidates_def scenario_defs)
  ultimately show ?thesis
    by (simp add: chain_state_def owns_def in_bounds_iff scenario_defs)
qed

lemma chain_scenario_click:
  "HandleInput chain_scenario True 5 5 = Inr chain_scenario"
  "\<exists>t. HandleInput chain_scenario True 4 4 = Inr t \<and> type (board t 2 2) = NONE"
  by (simp_all add: handle_defs scenario_defs FindValidMoves_def
        man_directions_def man_step_def add_move_def)

section \<open>An invariant of the reachable states\<close>

lemma coherent_InitializeGame: "coherent (InitializeGame gs)"
  by (auto simp: coherent_def InitializeGame_def ranks_consistent_iff init_cell_def Let_def)

lemma coherent_chain_state:
  "coherent gs \<Longrightarrow> pieceSelected gs \<Longrightarrow> isCapturing gs \<Longrightarrow> chain_state gs"
  by (simp add: coherent_def chain_state_def)

lemma resolve_capture_flag:
  assumes "resolve_capture gs x y = Inr (g1, ic)" and "ic"
  shows "isCapturing g1" and "selectedX gs \<noteq> x"
  using assms
  by (auto simp: resolve_capture_def Let_def split: if_splits sum.splits)

lemma capture_scan_source:
  assumes "capture_scan gs x y cx cy = Inr (g1, al)"
    and "if x > selectedX gs then selectedX gs < cx else cx < selectedX gs"
  shows "board g1 (selectedY gs) (selectedX gs) = board gs (selectedY gs) (selectedX gs)"
  using assms
proof (induction gs x y cx cy rule: capture_scan.induct)
  case (1 gs x y captureX captureY)
  show ?case
    using "1.prems" "1.IH"
    apply (subst (asm) capture_scan.simps)
    apply (auto simp: Let_def remove_piece_board split: if_splits)
    done
qed

lemma resolve_capture_source:
  assumes "resolve_capture gs x y = Inr (g1, ic)"
  shows "board g1 (selectedY gs) (selectedX gs) = board gs (selectedY gs) (selectedX gs)"
proof (cases "\<bar>selectedX gs - x\<bar> > 1 \<and> \<bar>selectedY gs - y\<bar> > 1")
  case False
  then show ?thesis
    using assms by (auto simp: resolve_capture_def Let_def)
next
  case far: True
  show ?thesis
  proof (cases "isKing (board gs (selectedY gs) (selectedX gs))")
    case True
    let ?dx = "if x > selectedX gs then 1 else -1 :: int"
    let ?dy = "if y > selectedY gs then 1 else -1 :: int"
    obtain g al where cs:
      "capture_scan gs x y (selectedX gs + ?dx) (selectedY gs + ?dy) = Inr (g, al)"
      and g1: "g1 = g\<lparr>isCapturing := True\<rparr>"
      using assms far True
      by (auto simp: resolve_capture_def Let_def split: sum.splits if_splits)
    have "board g (selectedY gs) (selectedX gs) = board gs (selectedY gs) (selectedX gs)"
      using capture_scan_source [OF cs] by simp
    then show ?thesis
      using g1 by simp
  next
    case False
    have "g1 = (add_score (remove_piece gs ((selectedX gs + x) div 2) ((selectedY gs + y) div 2)))
                  \<lparr>isCapturing := True\<rparr>"
      using assms far False by (auto simp: resolve_capture_def Let_def)
    moreover have "(selectedX gs + x) div 2 \<noteq> selectedX gs"
      using far by auto
    ultimately show ?thesis
      by (simp add: remove_piece_board)
  qed
qed

lemma select_coherent:
  assumes "ranks_consistent (board gs)"
    and "in_bounds x y" and "type (board gs y x) \<noteq> NONE" and "player (board gs y x) = currentPlayer gs"
    and "\<not> isCapturing gs"
    and "FindValidMoves (gs\<lparr>pieceSelected := True, selectedX := x, selectedY := y\<rparr>) x y False = Inr gs'"
  shows "coherent gs'"
  using assms FindValidMoves_fields [OF assms(6)]
  by (simp add: coherent_def owns_def)

lemma apply_move_coherent:
  assumes "coherent gs" and "pieceSelected gs" and "apply_move gs x y = Inr gs'"
  shows "coherent gs'"
proof -
  have inb: "in_bounds (selectedX gs) (selectedY gs)" "in_bounds x y"
    using assms(3) by (auto simp: apply_move_def split: if_splits)
  have rk: "ranks_consistent (board gs)"
    and own: "owns (board gs) (currentPlayer gs) (selectedX gs) (selectedY gs)"
    using assms(1,2) by (simp_all add: coherent_def)
  obtain g1 ic where rc: "resolve_capture gs x y = Inr (g1, ic)"
    using resolve_capture_total [OF inb] by blast
  note fr = resolve_capture_frame(1-3) [OF rc inb]
  have fr_pl: "player (board g1 cy cx) = player (board gs cy cx)"
    and fr_k: "isKing (board g1 cy cx) = isKing (board gs cy cx)"
    and fr_t: "type (board g1 cy cx) = type (board gs cy cx) \<or> type (board g1 cy cx) = NONE"
    for cx cy
    using resolve_capture_frame(4-6) [OF rc inb] by blast+
  have oth: "\<And>px py. (px, py) \<noteq> (x, y) \<Longrightarrow> board gs' py px = board (move_piece g1 x y) py px"
    and dest: "board gs' y x = board (move_piece g1 x y) y x \<or>
            board gs' y x = (board (move_piece g1 x y) y x)\<lparr>isKing := True, type := KING\<rparr>"
    and keep: "pieceSelected gs' \<longrightarrow>
              selectedX gs' = x \<and> selectedY gs' = y \<and> isCapturing gs' = isCapturing g1 \<and>
              currentPlayer gs' = currentPlayer g1 \<and>
              generate gs' x y True = Inr (candidates gs') \<and> ic"
    using apply_move_after [OF inb rc] assms(3) by auto
  have g1c: "isKing (board g1 py px) \<longleftrightarrow> type (board g1 py px) = KING"
    if "in_bounds px py" "type (board g1 py px) \<noteq> NONE" for px py
  proof -
    have same: "type (board g1 py px) = type (board gs py px)"
      using fr_t [of py px] that(2) by auto
    then have "isKing (board gs py px) \<longleftrightarrow> type (board gs py px) = KING"
      using rk that by (simp add: ranks_consistent_iff)
    then show ?thesis
      using same fr_k [of py px] by simp
  qed
  have mvc: "isKing (board (move_piece g1 x y) py px) \<longleftrightarrow>
             type (board (move_piece g1 x y) py px) = KING"
    if "in_bounds px py" "type (board (move_piece g1 x y) py px) \<noteq> NONE" for px py
    using that g1c [of px py] g1c [of "selectedX gs" "selectedY gs"] inb(1) fr(2,3)
    by (auto simp: move_piece_board split: if_splits)
  have cell: "isKing (board gs' py px) \<longleftrightarrow> type (board gs' py px) = KING"
    if "in_bounds px py" "type (board gs' py px) \<noteq> NONE" for px py
  proof (cases "(px, py) = (x, y)")
    case True
    then show ?thesis
      using dest mvc [of x y] that by auto
  next
    case False
    then show ?thesis
      using oth [OF False] mvc [of px py] that by simp
  qed
  have rk': "ranks_consistent (board gs')"
    using cell by (auto simp: ranks_consistent_iff)
  have sel': "owns (board gs') (currentPlayer gs') (selectedX gs') (selectedY gs') \<and>
              (isCapturing gs' \<longrightarrow>
                 generate gs' (selectedX gs') (selectedY gs') True = Inr (candidates gs'))"
    if ps: "pieceSelected gs'"
  proof -
    have ic: "ic" using keep ps by simp
    have ne: "selectedX gs \<noteq> x"
      using resolve_capture_flag(2) [OF rc ic] .
    have "type (board (move_piece g1 x y) y x) \<noteq> NONE \<and>
          player (board (move_piece g1 x y) y x) = currentPlayer gs"
      using ne own fr(2,3) resolve_capture_source [OF rc]
      by (auto simp: move_piece_board owns_def)
    then show ?thesis
      using keep ps dest inb(2) fr(1) by (auto simp: owns_def)
  qed
  show ?thesis
    using rk' sel' by (simp add: coherent_def)
qed


lemma HandleInput_coherent:
  assumes "coherent gs" and "HandleInput gs pressed x y = Inr gs'"
  shows "coherent gs'"
proof -
  have rk: "ranks_consistent (board gs)"
    using assms(1) by (simp add: coherent_def)
  consider (idle) "\<not> pressed \<or> (\<not> pieceSelected gs \<and>
        \<not> (\<not> isCapturing gs \<and> in_bounds x y \<and> type (board gs y x) \<noteq> NONE \<and>
            player (board gs y x) = currentPlayer gs))"
    | (select) "pressed" "\<not> isCapturing gs" "in_bounds x y" "type (board gs y x) \<noteq> NONE"
        "player (board gs y x) = currentPlayer gs"
    | (move) "pressed" "pieceSelected gs"
        "\<not> (\<not> isCapturing gs \<and> type (board gs y x) \<noteq> NONE \<and>
            player (board gs y x) = currentPlayer gs)"
        "\<not> (\<not> isCapturing gs \<and> \<not> in_bounds x y)"
    | (out) "pressed" "pieceSelected gs" "\<not> isCapturing gs" "\<not> in_bounds x y"
    by blast
  then show ?thesis
  proof cases
    case idle
    then have "HandleInput gs pressed x y = Inr gs"
      by (auto simp: HandleInput_def)
    then show ?thesis
      using assms by simp
  next
    case select
    then have "FindValidMoves (gs\<lparr>pieceSelected := True, selectedX := x, selectedY := y\<rparr>) x y False
                 = Inr gs'"
      using assms(2) by (auto simp: HandleInput_def split: if_splits)
    then show ?thesis
      using select_coherent [OF rk select(3,4,5,2)] by simp
  next
    case move
    show ?thesis
    proof (cases "IsValidMove gs (selectedX gs) (selectedY gs) x y")
      case (Inl e)
      then show ?thesis
        using assms(2) move by (auto simp: HandleInput_def)
    next
      case (Inr valid)
      show ?thesis
      proof (cases valid)
        case True
        then have "apply_move gs x y = Inr gs'"
          using assms(2) move Inr by (auto simp: HandleInput_def)
        then show ?thesis
          using apply_move_coherent [OF assms(1) move(2)] by simp
      next
        case False
        then have "gs' = gs \<or> gs' = gs\<lparr>pieceSelected := False, validMoveCount := 0\<rparr>"
          using assms(2) move Inr by (auto simp: HandleInput_def split: if_splits)
        then show ?thesis
          using assms(1) by (auto simp: coherent_def)
      qed
    qed
  next
    case out
    then show ?thesis
      using assms(2) by (simp add: HandleInput_def)
  qed
qed

section \<open>The scenario of a full candidate array\<close>

lemma centre_king_full:
  "\<exists>gs'. FindValidMoves (idle_state centre_king_board PLAYER1) 3 4 False = Inr gs' \<and>
     validMoveCount gs' = 12"
  by (simp add: FindValidMoves_def in_bounds_iff king_scan.simps add_move_def scenario_defs Let_def)

lemma chain_scenario_coherent: "coherent chain_scenario"
proof -
  have "ranks_consistent (board chain_scenario)"
    by (auto simp: ranks_consistent_iff scenario_defs)
  then show ?thesis
    using chain_scenario_is_chain by (simp add: coherent_def chain_state_def)
qed

section \<open>The generator does not read the type of its source cell\<close>

lemma agree_off_add_move:
  "agree_off x y g1 g2 \<Longrightarrow> agree_off x y (add_move g1 a b) (add_move g2 a b)"
  by (auto simp: agree_off_def add_move_def)

lemma agree_off_candidates: "agree_off x y g1 g2 \<Longrightarrow> candidates g1 = candidates g2"
  by (auto simp: agree_off_def candidates_def)

lemma king_scan_agree_off:
  "agree_off x y g1 g2 \<Longrightarrow> player p1 = player p2 \<Longrightarrow> 0 \<le> dir_dx d * (nx - x) \<Longrightarrow>
   agree_off x y (fst (king_scan g1 p1 d a nx ny f c)) (fst (king_scan g2 p2 d a nx ny f c)) \<and>
   snd (king_scan g1 p1 d a nx ny f c) = snd (king_scan g2 p2 d a nx ny f c)"
proof (induction g1 p1 d a nx ny f c arbitrary: g2 rule: king_scan.induct)
  case (1 gs piece d a nx0 ny0 f c)
  let ?x = "nx0 + dir_dx d" and ?y = "ny0 + dir_dy d"
  have ne: "?x \<noteq> x"
    using "1.prems"(3) dir_cases [of d] by auto
  have pos: "0 \<le> dir_dx d * (?x - x)"
    using "1.prems"(3) dir_cases [of d] by (auto simp: algebra_simps)
  have b: "board gs ?y ?x = board g2 ?y ?x" and n: "validMoveCount gs = validMoveCount g2"
    using "1.prems"(1) ne by (simp_all add: agree_off_def)
  note am = agree_off_add_move [OF "1.prems"(1), of ?x ?y]
  show ?case
    apply (subst king_scan.simps [of gs])
    apply (subst king_scan.simps [of g2])
    apply (subst (3) king_scan.simps [of gs])
    apply (subst (3) king_scan.simps [of g2])
    using "1.IH"(1) [OF refl refl _ _ _ _ am "1.prems"(2) pos]
      "1.IH"(2) [OF refl refl _ _ _ _ "1.prems"(1,2) pos]
      "1.IH"(3) [OF refl refl _ _ _ _ "1.prems"(1,2) pos] am "1.prems"(1,2)
    by (simp add: Let_def b n)
qed

lemma king_fold_agree_off:
  "agree_off x y g1 g2 \<Longrightarrow> player p1 = player p2 \<Longrightarrow>
   agree_off x y (fst (fold (\<lambda>d (g, ca). king_scan g p1 d a x y False ca) ds (g1, c)))
                 (fst (fold (\<lambda>d (g, ca). king_scan g p2 d a x y False ca) ds (g2, c))) \<and>
   snd (fold (\<lambda>d (g, ca). king_scan g p1 d a x y False ca) ds (g1, c)) =
   snd (fold (\<lambda>d (g, ca). king_scan g p2 d a x y False ca) ds (g2, c))"
proof (induction ds arbitrary: g1 g2 c)
  case Nil
  then show ?case by simp
next
  case (Cons d ds)
  obtain h1 k1 where s1: "king_scan g1 p1 d a x y False c = (h1, k1)"
    by (cases "king_scan g1 p1 d a x y False c")
  obtain h2 k2 where s2: "king_scan g2 p2 d a x y False c = (h2, k2)"
    by (cases "king_scan g2 p2 d a x y False c")
  have "agree_off x y h1 h2 \<and> k1 = k2"
    using king_scan_agree_off [OF Cons.prems, of d x a y False c] by (simp add: s1 s2)
  then show ?case
    using Cons.IH [of h1 h2 k1] Cons.prems(2) by (simp add: s1 s2)
qed

lemma man_step_agree_off:
  assumes "agree_off x y g1 g2" and "player p1 = player p2"
  shows "agree_off x y (man_step g1 p1 d a x y) (man_step g2 p2 d a x y)"
proof -
  have ne: "x + dir_dx d \<noteq> x" "x + 2 * dir_dx d \<noteq> x"
    using dir_cases [of d] by auto
  have b1: "board g1 (y + dir_dy d) (x + dir_dx d) = board g2 (y + dir_dy d) (x + dir_dx d)"
    and b2: "board g1 (y + 2 * dir_dy d) (x + 2 * dir_dx d)
               = board g2 (y + 2 * dir_dy d) (x + 2 * dir_dx d)"
    using assms(1) ne by (simp_all add: agree_off_def)
  have ab: "board (add_move g u v) = board g" for g u v
    by (simp add: add_move_def)
  show ?thesis
    unfolding man_step_def Let_def
    using assms agree_off_add_move [OF assms(1)]
      agree_off_add_move [OF agree_off_add_move [OF assms(1)]]
    by (simp add: b1 b2 ab)
qed

lemma man_fold_agree_off:
  "agree_off x y g1 g2 \<Longrightarrow> player p1 = player p2 \<Longrightarrow>
   agree_off x y (fold (\<lambda>d g. man_step g p1 d a x y) ds g1)
                 (fold (\<lambda>d g. man_step g p2 d a x y) ds g2)"
  by (induction ds arbitrary: g1 g2) (simp_all add: man_step_agree_off)

lemma generate_agree_off:
  assumes "in_bounds x y"
    and "\<forall>cx cy. (cx, cy) \<noteq> (x, y) \<longrightarrow> board g1 cy cx = board g2 cy cx"
    and "player (board g1 y x) = player (board g2 y x)"
    and "isKing (board g1 y x) = isKing (board g2 y x)"
  shows "generate g1 x y a = generate g2 x y a"
proof -
  let ?h1 = "g1\<lparr>validMoveCount := 0\<rparr>" and ?h2 = "g2\<lparr>validMoveCount := 0\<rparr>"
  let ?p1 = "board g1 y x" and ?p2 = "board g2 y x"
  have ag: "agree_off x y ?h1 ?h2"
    using assms(2) by (auto simp: agree_off_def)
  show ?thesis
  proof (cases "isKing (board g1 y x)")
    case True
    let ?f = "\<lambda>g p. fold (\<lambda>d (g, ca). king_scan g p d a x y False ca)
       [DownRight, DownLeft, UpRight, UpLeft] (g, False)"
    obtain h1 k1 where r1: "?f ?h1 ?p1 = (h1, k1)" by (cases "?f ?h1 ?p1")
    obtain h2 k2 where r2: "?f ?h2 ?p2 = (h2, k2)" by (cases "?f ?h2 ?p2")
    have kk: "agree_off x y h1 h2 \<and> k1 = k2"
      using king_fold_agree_off [OF ag assms(3), of a
          "[DownRight, DownLeft, UpRight, UpLeft]" False]
      unfolding r1 r2 by simp
    have c: "candidates h1 = candidates h2"
      using kk agree_off_candidates by blast
    have "FindValidMoves g1 x y a = Inr (if a \<and> \<not> k1 then h1\<lparr>validMoveCount := 0\<rparr> else h1)"
      using assms(1) True r1 unfolding FindValidMoves_def Let_def by simp
    moreover have "FindValidMoves g2 x y a = Inr (if a \<and> \<not> k2 then h2\<lparr>validMoveCount := 0\<rparr> else h2)"
      using assms(1,4) True r2 unfolding FindValidMoves_def Let_def by simp
    ultimately show ?thesis
      using kk c unfolding generate_def by (simp add: candidates_def)
  next
    case False
    have md: "man_directions (player ?p1) = man_directions (player ?p2)"
      using assms(3) by simp
    show ?thesis
      using assms(1,4) False
        agree_off_candidates [OF man_fold_agree_off [OF ag assms(3),
            of a "man_directions (player ?p2)"]]
      unfolding generate_def FindValidMoves_def Let_def
      by (simp add: md)
  qed
qed

text \<open>
  The second selection test of \<open>HandleInput\<close> (a piece is selected, no capture sequence)
  has no range test, unlike the first: a click outside the board is an out-of-range read.
\<close>

lemma reselect_out_of_range:
  "pieceSelected king_capture_state \<and> \<not> isCapturing king_capture_state \<and>
   HandleInput king_capture_state True 8 0 = Inl OutOfBounds"
  by (simp add: HandleInput_def in_bounds_iff scenario_defs)

section \<open>The scores\<close>

text \<open>
  Below the largest value an increment is an increment of the signed reading; at the
  largest value it wraps around to the smallest.
\<close>

lemma sint_succ:
  fixes w :: int32
  assumes "sint w < 2147483647"
  shows "sint (w + 1) = sint w + 1"
proof -
  have lo: "- (2 ^ 31) \<le> sint w"
    using sint_ge [of w] by simp
  have "sint (w + 1) = signed_take_bit 31 (sint w + 1)"
    by (simp add: sint_word_ariths)
  also have "\<dots> = sint w + 1"
    using lo assms by (simp add: signed_take_bit_int_eq_self)
  finally show ?thesis .
qed

lemma add_score_wraps:
  "sint (player1Score (add_score (gs\<lparr>currentPlayer := PLAYER1, player1Score := 2147483647\<rparr>)))
     = - 2147483648"
  by (simp add: add_score_def)

text \<open>The same in play: a capture by a player whose score is the largest \<open>int\<close>.\<close>

lemma chain_scenario_score_wraps:
  "coherent (chain_scenario\<lparr>player1Score := 2147483647\<rparr>) \<and>
   (\<exists>t. HandleInput (chain_scenario\<lparr>player1Score := 2147483647\<rparr>) True 4 4 = Inr t \<and>
      sint (player1Score t) = - 2147483648)"
proof -
  let ?s = "chain_scenario\<lparr>player1Score := 2147483647\<rparr>"
  have g: "generate ?s x y True = generate chain_scenario x y True" for x y
    by (rule generate_agree) simp
  have c: "candidates ?s = candidates chain_scenario"
    by (simp add: candidates_def)
  have "coherent ?s"
    using chain_scenario_coherent unfolding coherent_def g c by simp
  moreover have "\<exists>t. HandleInput ?s True 4 4 = Inr t \<and> sint (player1Score t) = - 2147483648"
    by (simp add: handle_defs scenario_defs FindValidMoves_def
        man_directions_def man_step_def add_move_def)
  ultimately show ?thesis by simp
qed

section \<open>Claims\<close>

text \<open>
  C1 (as amended). On every board with a king at \<open>(0, 0)\<close>, an empty cell at \<open>(1, 1)\<close>, a
  piece of the other player at \<open>(2, 2)\<close> and an empty cell at \<open>(3, 3)\<close> (so also on the
  board of the scenario, with a second piece at \<open>(4, 4)\<close> and an empty cell at \<open>(5, 5)\<close>),
  generating the candidates of \<open>(0, 0)\<close> with \<open>afterCapture = false\<close> yields exactly two
  candidates: the simple move to \<open>(1, 1)\<close> and the capture landing \<open>(3, 3)\<close>, and nothing
  at or beyond \<open>(4, 4)\<close>. With \<open>afterCapture = true\<close> the list is \<open>(3, 3)\<close> alone.
\<close>

theorem corner_king_candidates:
  assumes "isKing (board gs 0 0)"
    and "type (board gs 1 1) = NONE"
    and "type (board gs 2 2) \<noteq> NONE" and "player (board gs 2 2) \<noteq> player (board gs 0 0)"
    and "type (board gs 3 3) = NONE"
  shows "generate gs 0 0 False = Inr [(1, 1), (3, 3)] \<and> generate gs 0 0 True = Inr [(3, 3)]"
  using corner_king_generate [OF assms] by simp

theorem corner_king_candidates_witness:
  "isKing (board (idle_state corner_king_board PLAYER1) 0 0) \<and>
   type (board (idle_state corner_king_board PLAYER1) 1 1) = NONE \<and>
   type (board (idle_state corner_king_board PLAYER1) 2 2) \<noteq> NONE \<and>
   player (board (idle_state corner_king_board PLAYER1) 2 2)
     \<noteq> player (board (idle_state corner_king_board PLAYER1) 0 0) \<and>
   type (board (idle_state corner_king_board PLAYER1) 3 3) = NONE \<and>
   generate (idle_state corner_king_board PLAYER1) 0 0 False = Inr [(1, 1), (3, 3)] \<and>
   generate (idle_state corner_king_board PLAYER1) 0 0 True = Inr [(3, 3)]"
  using corner_king_candidates [of "idle_state corner_king_board PLAYER1"]
  by (simp add: scenario_defs)

text \<open>
  C1 as stated fails: on the board of the scenario the list for \<open>afterCapture = false\<close> is
  not \<open>(3, 3)\<close> alone, since the empty cell \<open>(1, 1)\<close> before the first piece is a candidate.
\<close>

theorem corner_king_counterexample:
  "type (board (idle_state corner_king_board PLAYER1) 4 4) \<noteq> NONE \<and>
   type (board (idle_state corner_king_board PLAYER1) 5 5) = NONE \<and>
   generate (idle_state corner_king_board PLAYER1) 0 0 False \<noteq> Inr [(3, 3)]"
  using corner_king_generate(1) [of "idle_state corner_king_board PLAYER1"]
  by (simp add: scenario_defs)

text \<open>
  C2. For every board and every man (a piece whose \<open>isKing\<close> is false) on a cell
  \<open>(x, y)\<close> of the board, the generator returns a list \<open>cs\<close>. Forward is towards the
  larger rows for \<open>PLAYER1\<close>, whose men start on rows 0 to 2, and towards the smaller rows
  for \<open>PLAYER2\<close>: \<open>fy\<close> is 1 or -1 accordingly. For each of the two columns next to
  \<open>x\<close>: the adjacent forward cell is in \<open>cs\<close> if and only if it is on the board, empty,
  and \<open>afterCapture\<close> is false; the cell two steps along is in \<open>cs\<close> if and only if it
  is on the board and empty and the adjacent cell holds a piece of the other player. The
  list holds no other cell.
\<close>

theorem man_candidates:
  assumes "0 \<le> x \<and> x < 8 \<and> 0 \<le> y \<and> y < 8" and "\<not> isKing (board gs y x)"
    and "fy = (if player (board gs y x) = PLAYER1 then 1 else - 1)"
  shows "\<exists>cs. generate gs x y a = Inr cs \<and>
           (\<forall>dx\<in>{1, - 1}.
              ((x + dx, y + fy) \<in> set cs \<longleftrightarrow>
                 0 \<le> x + dx \<and> x + dx < 8 \<and> 0 \<le> y + fy \<and> y + fy < 8 \<and>
                 type (board gs (y + fy) (x + dx)) = NONE \<and> \<not> a) \<and>
              ((x + 2 * dx, y + 2 * fy) \<in> set cs \<longleftrightarrow>
                 0 \<le> x + 2 * dx \<and> x + 2 * dx < 8 \<and> 0 \<le> y + 2 * fy \<and> y + 2 * fy < 8 \<and>
                 type (board gs (y + 2 * fy) (x + 2 * dx)) = NONE \<and>
                 type (board gs (y + fy) (x + dx)) \<noteq> NONE \<and>
                 player (board gs (y + fy) (x + dx)) \<noteq> player (board gs y x))) \<and>
           set cs \<subseteq> {(x + 1, y + fy), (x - 1, y + fy), (x + 2, y + 2 * fy), (x - 2, y + 2 * fy)}"
proof -
  have inb: "in_bounds x y"
    using assms(1) by (simp add: in_bounds_iff)
  show ?thesis
  proof (cases "player (board gs y x) = PLAYER1")
    case True
    have md: "man_directions (player (board gs y x)) = [DownRight, DownLeft]"
      using True by (simp add: man_directions_def)
    show ?thesis
      using assms(1,3) True
      by (simp add: man_generate [OF inb assms(2) md] in_bounds_iff) auto
  next
    case False
    have md: "man_directions (player (board gs y x)) = [UpRight, UpLeft]"
      using False by (simp add: man_directions_def)
    show ?thesis
      using assms(1,3) False
      by (simp add: man_generate [OF inb assms(2) md] in_bounds_iff) auto
  qed
qed

theorem man_candidates_witness:
  "\<not> isKing (board (idle_state man_capture_board PLAYER1) 1 1) \<and>
   player (board (idle_state man_capture_board PLAYER1) 1 1) = PLAYER1 \<and>
   (\<exists>cs. generate (idle_state man_capture_board PLAYER1) 1 1 False = Inr cs \<and>
      (3, 3) \<in> set cs \<and> (0, 2) \<in> set cs \<and> (2, 2) \<notin> set cs \<and>
      set cs \<subseteq> {(2, 2), (0, 2), (3, 3), (- 1, 3)}) \<and>
   \<not> isKing (board (idle_state man_capture_board PLAYER2) 2 2) \<and>
   player (board (idle_state man_capture_board PLAYER2) 2 2) = PLAYER2 \<and>
   (\<exists>cs. generate (idle_state man_capture_board PLAYER2) 2 2 False = Inr cs \<and>
      (0, 0) \<in> set cs \<and> (3, 1) \<in> set cs \<and> (1, 1) \<notin> set cs \<and>
      set cs \<subseteq> {(3, 1), (1, 1), (4, 0), (0, 0)})"
proof -
  have one: "\<exists>cs. generate (idle_state man_capture_board PLAYER1) 1 1 False = Inr cs \<and>
      (3, 3) \<in> set cs \<and> (0, 2) \<in> set cs \<and> (2, 2) \<notin> set cs \<and>
      set cs \<subseteq> {(2, 2), (0, 2), (3, 3), (- 1, 3)}"
    using man_candidates [of 1 1 "idle_state man_capture_board PLAYER1" 1 False]
    by (simp add: scenario_defs) blast
  have two: "\<exists>cs. generate (idle_state man_capture_board PLAYER2) 2 2 False = Inr cs \<and>
      (0, 0) \<in> set cs \<and> (3, 1) \<in> set cs \<and> (1, 1) \<notin> set cs \<and>
      set cs \<subseteq> {(3, 1), (1, 1), (4, 0), (0, 0)}"
    using man_candidates [of 2 2 "idle_state man_capture_board PLAYER2" "- 1" False]
    by (simp add: scenario_defs) blast
  show ?thesis
    using one two by (simp add: scenario_defs)
qed

text \<open>
  C3. On every board whose pieces have a consistent rank, and for each player to move
  \<open>p\<close>, \<open>CheckGameOver\<close> tests elimination before immobility: if \<open>PLAYER1\<close> owns no
  piece, \<open>PLAYER2\<close> wins; otherwise if \<open>PLAYER2\<close> owns no piece, \<open>PLAYER1\<close> wins;
  otherwise, if no piece of \<open>p\<close> has a candidate (the list that \<open>FindValidMoves\<close>
  generates for it with \<open>afterCapture = false\<close> is empty), the opponent of \<open>p\<close> wins;
  otherwise the game is not over.
\<close>

theorem CheckGameOver_rule:
  assumes "ranks_consistent (board gs)"
  shows "CheckGameOver gs p =
     (if \<not> (\<exists>x y. owns (board gs) PLAYER1 x y) then Some PLAYER2
      else if \<not> (\<exists>x y. owns (board gs) PLAYER2 x y) then Some PLAYER1
      else if (\<forall>x y. owns (board gs) p x y \<longrightarrow> generate gs x y False = Inr [])
      then Some (opponent p)
      else None)"
proof -
  have mv: "generate gs x y False \<noteq> Inr [] \<longleftrightarrow>
              (if q = PLAYER1 then player1_moves (board gs) x y else player2_moves (board gs) x y)"
    if "owns (board gs) q x y" for q x y
    using that assms player_moves_iff [of x y gs]
    by (simp add: owns_def ranks_consistent_iff)
  have m1: "(\<exists>x y. owns (board gs) PLAYER1 x y \<and> player1_moves (board gs) x y) \<longleftrightarrow>
            \<not> (\<forall>x y. owns (board gs) PLAYER1 x y \<longrightarrow> generate gs x y False = Inr [])"
    using mv [of PLAYER1] by auto
  have m2: "(\<exists>x y. owns (board gs) PLAYER2 x y \<and> player2_moves (board gs) x y) \<longleftrightarrow>
            \<not> (\<forall>x y. owns (board gs) PLAYER2 x y \<longrightarrow> generate gs x y False = Inr [])"
    using mv [of PLAYER2] by auto
  show ?thesis
    unfolding CheckGameOver_unfold m1 m2
    by (cases p) (simp_all add: opponent_def)
qed

theorem CheckGameOver_rule_witness:
  "ranks_consistent (board (idle_state blocked_board PLAYER1)) \<and>
   owns (board (idle_state blocked_board PLAYER1)) PLAYER1 0 5 \<and>
   generate (idle_state blocked_board PLAYER1) 0 5 False = Inr [] \<and>
   CheckGameOver (idle_state blocked_board PLAYER1) PLAYER1 = Some PLAYER2"
proof -
  have b: "board (idle_state blocked_board PLAYER1) = blocked_board"
    by (simp add: idle_state_def)
  have ex1: "\<exists>x y. owns blocked_board PLAYER1 x y"
    and ex2: "\<exists>x y. owns blocked_board PLAYER2 x y"
    by (auto simp: blocked_board_owns)
  have none: "\<forall>x y. owns blocked_board PLAYER1 x y \<longrightarrow>
                generate (idle_state blocked_board PLAYER1) x y False = Inr []"
    using blocked_board_generate by (auto simp: blocked_board_owns)
  have "CheckGameOver (idle_state blocked_board PLAYER1) PLAYER1 = Some PLAYER2"
    using CheckGameOver_rule [of "idle_state blocked_board PLAYER1" PLAYER1]
      blocked_board_consistent ex1 ex2 none
    unfolding b by (simp add: opponent_def)
  then show ?thesis
    using blocked_board_consistent blocked_board_generate
    by (simp add: b blocked_board_owns)
qed

text \<open>
  C4. Let the selected cell hold a piece of the current player, man or king, and let
  \<open>(x, y)\<close> be a capture candidate of that piece: a cell of the list that the generator
  returns with \<open>afterCapture = true\<close>, which holds the capture landings only. Then exactly
  one cell between the piece and \<open>(x, y)\<close> on the scanned diagonal holds a piece, and that
  piece is the opponent's. And for every click on \<open>(x, y)\<close> that \<open>HandleInput\<close> accepts as
  a move, the call returns, that one piece is removed and no other: the opponent's piece
  count drops by one, the mover's count is unchanged, so the total drops by exactly one; the
  mover's score is incremented once (a 32-bit increment) and the opponent's score is
  unchanged. Unless the mover's score was the largest \<open>int\<close>, its signed value has grown
  by exactly one.
\<close>

theorem capture_removes_one:
  assumes "owns (board gs) (currentPlayer gs) (selectedX gs) (selectedY gs)"
    and "generate gs (selectedX gs) (selectedY gs) True = Inr cs" and "(x, y) \<in> set cs"
  shows "(\<exists>cx cy.
            filter (\<lambda>(px, py). type (board gs py px) \<noteq> NONE)
              (between_cells (selectedX gs) (selectedY gs) x y) = [(cx, cy)] \<and>
            player (board gs cy cx) = opponent (currentPlayer gs)) \<and>
         (move_accepted gs x y \<longrightarrow>
            (\<exists>gs'. HandleInput gs True x y = Inr gs' \<and> captures_one gs x y gs' \<and>
               piece_count (board gs') PLAYER1 + piece_count (board gs') PLAYER2 =
                 piece_count (board gs) PLAYER1 + piece_count (board gs) PLAYER2 - 1 \<and>
               (sint (score gs (currentPlayer gs)) < 2147483647 \<longrightarrow>
                  sint (score gs' (currentPlayer gs)) = sint (score gs (currentPlayer gs)) + 1)))"
proof -
  obtain gs' where inb: "in_bounds x y" and am: "apply_move gs x y = Inr gs'"
    and co: "captures_one gs x y gs'"
    using capture_applied [OF assms] by blast
  have jumped: "\<exists>cx cy.
            filter (\<lambda>(px, py). type (board gs py px) \<noteq> NONE)
              (between_cells (selectedX gs) (selectedY gs) x y) = [(cx, cy)] \<and>
            player (board gs cy cx) = opponent (currentPlayer gs)"
    using co unfolding captures_one_def by blast
  have total: "piece_count (board gs') PLAYER1 + piece_count (board gs') PLAYER2 =
          piece_count (board gs) PLAYER1 + piece_count (board gs) PLAYER2 - 1"
    using co unfolding captures_one_def
    by (cases "currentPlayer gs") (simp_all add: opponent_def)
  have "score gs' (currentPlayer gs) = score gs (currentPlayer gs) + 1"
    using co unfolding captures_one_def by simp
  then have sc: "sint (score gs' (currentPlayer gs)) = sint (score gs (currentPlayer gs)) + 1"
    if "sint (score gs (currentPlayer gs)) < 2147483647"
    using sint_succ [OF that] by simp
  have "HandleInput gs True x y = Inr gs'" if "move_accepted gs x y"
    using HandleInput_move [OF that inb] am by simp
  then show ?thesis
    using jumped co total sc by blast
qed

theorem capture_removes_one_witness:
  "owns (board king_capture_state) (currentPlayer king_capture_state)
     (selectedX king_capture_state) (selectedY king_capture_state) \<and>
   generate king_capture_state (selectedX king_capture_state) (selectedY king_capture_state) True
     = Inr [(3, 3)] \<and>
   (3, 3) \<in> set [(3, 3)] \<and>
   move_accepted king_capture_state 3 3 \<and>
   sint (score king_capture_state (currentPlayer king_capture_state)) < 2147483647 \<and>
   (\<exists>gs'. HandleInput king_capture_state True 3 3 = Inr gs' \<and>
      captures_one king_capture_state 3 3 gs' \<and>
      piece_count (board gs') PLAYER1 + piece_count (board gs') PLAYER2 =
        piece_count (board king_capture_state) PLAYER1 +
        piece_count (board king_capture_state) PLAYER2 - 1 \<and>
      sint (score gs' PLAYER1) = 1)"
proof -
  have acc: "move_accepted king_capture_state 3 3"
    by (simp add: handle_defs scenario_defs)
  have own: "owns (board king_capture_state) (currentPlayer king_capture_state)
     (selectedX king_capture_state) (selectedY king_capture_state)"
    by (simp add: owns_def in_bounds_iff scenario_defs)
  have gen: "generate king_capture_state (selectedX king_capture_state)
               (selectedY king_capture_state) True = Inr [(3, 3)]"
    using corner_king_generate(2) [of king_capture_state]
    by (simp add: scenario_defs)
  have mem: "(3, 3) \<in> set [(3 :: int, 3 :: int)]" by simp
  have sc: "sint (score king_capture_state (currentPlayer king_capture_state)) = 0"
    "currentPlayer king_capture_state = PLAYER1"
    by (simp_all add: score_def scenario_defs)
  show ?thesis
    using capture_removes_one [OF own gen mem] acc own gen sc by auto
qed

text \<open>
  C5 (as amended). Called on a source cell of the board that is empty, the move generator
  raises no error and changes nothing but the candidate array and its count. The list need
  not be empty: the generator does not read the \<open>type\<close> of its source cell, so the list
  is the one it yields when the cell holds a piece with the same \<open>player\<close> and
  \<open>isKing\<close> fields, whatever the type written there.
\<close>

theorem generator_ignores_type:
  assumes "in_bounds x y" and "type (board gs y x) = NONE"
  shows "\<exists>gs'. FindValidMoves gs x y a = Inr gs' \<and>
           gs' = gs\<lparr>validMoves := validMoves gs', validMoveCount := validMoveCount gs'\<rparr> \<and>
           (\<forall>t. generate (gs\<lparr>board := set_cell (board gs) x y ((board gs y x)\<lparr>type := t\<rparr>)\<rparr>) x y a
                  = Inr (candidates gs'))"
proof -
  obtain gs' where f: "FindValidMoves gs x y a = Inr gs'"
    and ap: "appends_moves (gs\<lparr>validMoveCount := 0\<rparr>) gs'"
    using FindValidMoves_appends [OF assms(1)] by blast
  have g: "generate gs x y a = Inr (candidates gs')"
    using f by (simp add: generate_def)
  have "generate (gs\<lparr>board := set_cell (board gs) x y ((board gs y x)\<lparr>type := t\<rparr>)\<rparr>) x y a
          = Inr (candidates gs')" for t
    using generate_agree_off [OF assms(1),
        of "gs\<lparr>board := set_cell (board gs) x y ((board gs y x)\<lparr>type := t\<rparr>)\<rparr>" gs a] g
    by simp
  moreover have "gs' = gs\<lparr>validMoves := validMoves gs', validMoveCount := validMoveCount gs'\<rparr>"
    using ap unfolding appends_moves_def by simp
  ultimately show ?thesis
    using f by blast
qed

theorem generator_ignores_type_witness:
  "in_bounds 1 1 \<and> type (board (idle_state empty_board PLAYER1) 1 1) = NONE \<and>
   (\<exists>gs'. FindValidMoves (idle_state empty_board PLAYER1) 1 1 False = Inr gs' \<and>
      board gs' = empty_board \<and> candidates gs' = [(2, 2), (0, 2)] \<and>
      generate (idle_state (set_cell empty_board 1 1 (man PLAYER1)) PLAYER1) 1 1 False
        = Inr (candidates gs'))"
proof -
  let ?s = "idle_state empty_board PLAYER1"
  have inb: "in_bounds 1 1"
    by (simp add: in_bounds_iff)
  have e: "type (board ?s 1 1) = NONE"
    by (simp add: scenario_defs)
  have m: "?s\<lparr>board := set_cell (board ?s) 1 1 ((board ?s 1 1)\<lparr>type := REGULAR\<rparr>)\<rparr>
             = idle_state (set_cell empty_board 1 1 (man PLAYER1)) PLAYER1"
    by (simp add: scenario_defs)
  have c: "generate ?s 1 1 False = Inr [(2, 2), (0, 2)]"
    by (subst man_generate [of _ _ _ DownRight DownLeft])
       (simp_all add: scenario_defs in_bounds_iff man_directions_def)
  obtain g where g: "FindValidMoves ?s 1 1 False = Inr g"
    and fr: "g = ?s\<lparr>validMoves := validMoves g, validMoveCount := validMoveCount g\<rparr>"
    and ind: "\<forall>t. generate (?s\<lparr>board := set_cell (board ?s) 1 1 ((board ?s 1 1)\<lparr>type := t\<rparr>)\<rparr>) 1 1 False
                  = Inr (candidates g)"
    using generator_ignores_type [OF inb e, of False] by blast
  have "board g = empty_board"
    by (subst fr) (simp add: scenario_defs)
  moreover have "candidates g = [(2, 2), (0, 2)]"
    using c g by (simp add: generate_def)
  moreover have "generate (idle_state (set_cell empty_board 1 1 (man PLAYER1)) PLAYER1) 1 1 False
        = Inr (candidates g)"
    using ind m by metis
  ultimately show ?thesis
    using inb e g by blast
qed

text \<open>
  C5 as stated fails. Called on an empty cell in range, the generator reads the stale
  \<open>player\<close> and \<open>isKing\<close> fields of the cell and returns the moves of a man standing
  there; called on a cell out of range, it reads the board out of range.
\<close>

theorem empty_source_counterexample:
  "type (board (idle_state empty_board PLAYER1) 1 1) = NONE \<and>
   generate (idle_state empty_board PLAYER1) 1 1 False = Inr [(2, 2), (0, 2)] \<and>
   generate (idle_state empty_board PLAYER1) 8 0 False = Inl OutOfBounds"
proof -
  have "generate (idle_state empty_board PLAYER1) 1 1 False = Inr [(2, 2), (0, 2)]"
    by (subst man_generate [of _ _ _ DownRight DownLeft])
       (simp_all add: scenario_defs in_bounds_iff man_directions_def)
  moreover have "generate (idle_state empty_board PLAYER1) 8 0 False = Inl OutOfBounds"
    by (simp add: generate_def FindValidMoves_def in_bounds_iff)
  ultimately show ?thesis
    by (simp add: scenario_defs)
qed

text \<open>
  C6. For every click that moves the selected piece (both cells in range), the call returns,
  and if the piece was not a king before the move and the piece on the destination is a
  king after it, then the turn has ended: no piece is selected, the candidate count is 0,
  the chain flag is reset and the current player is the other player. This holds on every
  board, so also when captures are available from the promotion square (the witness is such
  a board: after the promotion at \<open>(3, 7)\<close> the generator would still offer \<open>(5, 5)\<close>).
\<close>

theorem promotion_ends_turn:
  assumes "move_accepted gs x y"
    and "in_bounds (selectedX gs) (selectedY gs)" and "in_bounds x y"
  shows "\<exists>gs'. HandleInput gs True x y = Inr gs' \<and>
           (\<not> isKing (board gs (selectedY gs) (selectedX gs)) \<and> isKing (board gs' y x) \<longrightarrow>
              \<not> pieceSelected gs' \<and> validMoveCount gs' = 0 \<and> \<not> isCapturing gs' \<and>
              currentPlayer gs' = opponent (currentPlayer gs))"
proof -
  have hi: "HandleInput gs True x y = apply_move gs x y"
    using HandleInput_move [OF assms(1,3)] .
  show ?thesis
    using assms(2,3)
  proof (cases rule: apply_move_cases [of gs x y])
    case (promoted gs1 ic gs3)
    then show ?thesis
      using hi resolve_capture_frame(1) [OF promoted(1) assms(2,3)]
        PromoteToKing_frame(1) [OF promoted(2)]
      by simp
  next
    case (chain gs1 ic gs3 gs4)
    have "isKing (board (move_piece gs1 x y) (selectedY gs) (selectedX gs)) \<longleftrightarrow>
          isKing (board gs (selectedY gs) (selectedX gs))"
      using resolve_capture_frame(2,3,5) [OF chain(1) assms(2,3)]
      by (simp add: move_piece_board)
    moreover have "isKing (board gs4 y x) = isKing (board gs3 y x)"
      using FindValidMoves_fields(1) [OF chain(4)] by simp
    ultimately show ?thesis
      using hi chain by auto
  next
    case (ended gs1 ic gs3 gs4)
    then show ?thesis
      using hi resolve_capture_frame(1) [OF ended(1) assms(2,3)]
        PromoteToKing_frame(1) [OF ended(2)] FindValidMoves_fields(2) [OF ended(4)]
      by simp
  qed
qed

theorem promotion_ends_turn_witness:
  "move_accepted promotion_state 3 7 \<and>
   in_bounds (selectedX promotion_state) (selectedY promotion_state) \<and> in_bounds 3 7 \<and>
   \<not> isKing (board promotion_state (selectedY promotion_state) (selectedX promotion_state)) \<and>
   (\<exists>gs'. HandleInput promotion_state True 3 7 = Inr gs' \<and> isKing (board gs' 7 3) \<and>
      generate gs' 3 7 True = Inr [(5, 5)] \<and>
      \<not> pieceSelected gs' \<and> validMoveCount gs' = 0 \<and> \<not> isCapturing gs' \<and>
      currentPlayer gs' = PLAYER2)"
proof -
  have inb: "in_bounds (selectedX promotion_state) (selectedY promotion_state)" "in_bounds 3 7"
    by (simp_all add: in_bounds_iff scenario_defs)
  have man: "\<not> isKing (board promotion_state (selectedY promotion_state) (selectedX promotion_state))"
    by (simp add: scenario_defs)
  have cur: "opponent (currentPlayer promotion_state) = PLAYER2"
    by (simp add: scenario_defs opponent_def)
  show ?thesis
    using promotion_ends_turn [OF promotion_state_accepts inb] promotion_state_click
      promotion_state_accepts inb man cur
    by auto
qed

text \<open>
  C7. In every coherent state in which a capture sequence is in progress (the chain flag is
  set and a piece is selected), every input is either ignored, the state being returned
  unchanged, or it moves the selected piece to \<open>(x, y)\<close> and captures one opponent piece on
  the way; the new state is coherent again, and in it either no piece is selected (the chain
  has ended) or the selected piece is the same one on its new cell, with the chain flag set.
  So no simple move is applied and no other piece gets selected. Coherence holds after
  \<open>InitializeGame\<close> and is kept by every call of \<open>HandleInput\<close> that returns.
\<close>

theorem chain_only_captures:
  assumes "coherent gs" and "pieceSelected gs" and "isCapturing gs"
  shows "HandleInput gs pressed x y = Inr gs \<or>
         (\<exists>gs'. HandleInput gs pressed x y = Inr gs' \<and> captures_one gs x y gs' \<and>
            coherent gs' \<and>
            (pieceSelected gs' \<longrightarrow> selectedX gs' = x \<and> selectedY gs' = y \<and> isCapturing gs'))"
proof -
  have cs: "chain_state gs"
    using coherent_chain_state [OF assms] .
  have n: "validMoveCount gs \<le> 12"
    using cs candidates_length_le unfolding chain_state_def by blast
  show ?thesis
  proof (cases "pressed \<and> (x, y) \<in> set (candidates gs)")
    case False
    then have "HandleInput gs pressed x y = Inr gs"
      using assms(2,3) IsValidMove_iff [OF n] by (auto simp: HandleInput_def)
    then show ?thesis by simp
  next
    case True
    have own: "owns (board gs) (currentPlayer gs) (selectedX gs) (selectedY gs)"
      and gen: "generate gs (selectedX gs) (selectedY gs) True = Inr (candidates gs)"
      using cs by (simp_all add: chain_state_def)
    have acc: "move_accepted gs x y"
      using True assms(2,3) IsValidMove_iff [OF n] by (simp add: move_accepted_def)
    obtain gs' where inb: "in_bounds x y" and am: "apply_move gs x y = Inr gs'"
      and co: "captures_one gs x y gs'"
      and keep: "pieceSelected gs' \<longrightarrow> selectedX gs' = x \<and> selectedY gs' = y \<and> chain_state gs'"
      using capture_applied [OF own gen] True by blast
    have hi: "HandleInput gs pressed x y = Inr gs'"
      using HandleInput_move [OF acc inb] am True by simp
    have "coherent gs'"
      using HandleInput_coherent [OF assms(1) hi] .
    then show ?thesis
      using hi co keep by (auto simp: chain_state_def)
  qed
qed

theorem chain_only_captures_witness:
  "coherent chain_scenario \<and> pieceSelected chain_scenario \<and> isCapturing chain_scenario \<and>
   HandleInput chain_scenario True 5 5 = Inr chain_scenario \<and>
   (\<exists>gs'. HandleInput chain_scenario True 4 4 = Inr gs' \<and> gs' \<noteq> chain_scenario \<and>
      captures_one chain_scenario 4 4 gs')"
proof -
  have sel: "pieceSelected chain_scenario" "isCapturing chain_scenario"
    by (simp_all add: scenario_defs)
  obtain t where t: "HandleInput chain_scenario True 4 4 = Inr t" "type (board t 2 2) = NONE"
    using chain_scenario_click(2) by blast
  have "type (board chain_scenario 2 2) \<noteq> NONE"
    by (simp add: scenario_defs)
  then have ne: "t \<noteq> chain_scenario"
    using t(2) by auto
  then have "captures_one chain_scenario 4 4 t"
    using chain_only_captures [OF chain_scenario_coherent sel, of True 4 4] t(1) by auto
  then show ?thesis
    using chain_scenario_coherent sel chain_scenario_click(1) t(1) ne by blast
qed

text \<open>
  C8 (as amended). \<open>PromoteToKing\<close> at \<open>(x, y)\<close> makes the cell a king (\<open>isKing\<close> true,
  \<open>type\<close> \<open>KING\<close>) exactly when \<open>y\<close> is the row furthest from the starting side of the
  current player: the last row for \<open>PLAYER1\<close>, row 0 for \<open>PLAYER2\<close>. It does not test
  what the cell holds. In every other case it changes nothing, and applying it a second
  time changes nothing.
\<close>

theorem PromoteToKing_rule:
  assumes "in_bounds x y"
  shows "\<exists>gs'. PromoteToKing gs x y = Inr gs' \<and>
           PromoteToKing gs' x y = Inr gs' \<and>
           (if (currentPlayer gs = PLAYER1 \<and> y = BOARD_HEIGHT div CELL_SIZE - 1) \<or>
               (currentPlayer gs = PLAYER2 \<and> y = 0)
            then gs' = gs\<lparr>board := set_cell (board gs) x y
                               ((board gs y x)\<lparr>isKing := True, type := KING\<rparr>)\<rparr>
            else gs' = gs)"
  using assms by (auto simp: PromoteToKing_def set_cell_def)

theorem PromoteToKing_rule_witness:
  "in_bounds 3 7 \<and>
   (\<exists>gs'. PromoteToKing (idle_state (set_cell empty_board 3 7 (man PLAYER1)) PLAYER1) 3 7 = Inr gs' \<and>
      PromoteToKing gs' 3 7 = Inr gs' \<and> board gs' 7 3 = king PLAYER1)"
  using PromoteToKing_rule [of 3 7 "idle_state (set_cell empty_board 3 7 (man PLAYER1)) PLAYER1"]
  by (auto simp: scenario_defs in_bounds_iff)

text \<open>
  C8 as stated fails: on the last row, with \<open>PLAYER1\<close> to move, an empty cell is changed
  (it becomes a king), although it holds no man of that player.
\<close>

theorem PromoteToKing_counterexample:
  "type (board (idle_state empty_board PLAYER1) 7 1) = NONE \<and>
   PromoteToKing (idle_state empty_board PLAYER1) 1 7 \<noteq> Inr (idle_state empty_board PLAYER1)"
proof -
  let ?s = "idle_state empty_board PLAYER1"
  have "PromoteToKing ?s 1 7 =
          Inr (?s\<lparr>board := set_cell (board ?s) 1 7 ((board ?s 7 1)\<lparr>isKing := True, type := KING\<rparr>)\<rparr>)"
    by (simp add: PromoteToKing_def in_bounds_iff scenario_defs)
  moreover have "type (board (?s\<lparr>board := set_cell (board ?s) 1 7
                    ((board ?s 7 1)\<lparr>isKing := True, type := KING\<rparr>)\<rparr>) 7 1) = KING"
    by simp
  moreover have "type (board ?s 7 1) = NONE"
    by (simp add: scenario_defs)
  ultimately show ?thesis
    by (metis PieceType.distinct(3) sum.inject(2))
qed

text \<open>
  C9. For every call of the move generator on a source cell in range: the call returns; it
  changes \<open>validMoves\<close> and \<open>validMoveCount\<close> only; the count is between 0 and
  \<open>MAX_VALID_MOVES\<close> afterwards; no entry at an index outside \<open>0 .. MAX_VALID_MOVES - 1\<close>
  is written; and the new candidate list is the same whatever the array and the count held
  before the call, so nothing of a previous generation is in it.
\<close>

theorem FindValidMoves_bounded:
  assumes "in_bounds x y"
  shows "\<exists>gs'. FindValidMoves gs x y a = Inr gs' \<and>
           gs' = gs\<lparr>validMoves := validMoves gs', validMoveCount := validMoveCount gs'\<rparr> \<and>
           0 \<le> validMoveCount gs' \<and> validMoveCount gs' \<le> MAX_VALID_MOVES \<and>
           (\<forall>i. i < 0 \<or> MAX_VALID_MOVES \<le> i \<longrightarrow> validMoves gs' i = validMoves gs i) \<and>
           (\<forall>vm n. generate (gs\<lparr>validMoves := vm, validMoveCount := n\<rparr>) x y a
                      = Inr (candidates gs'))"
proof -
  obtain gs' where f: "FindValidMoves gs x y a = Inr gs'"
    and ap: "appends_moves (gs\<lparr>validMoveCount := 0\<rparr>) gs'"
    using FindValidMoves_appends [OF assms] by blast
  have g: "generate gs x y a = Inr (candidates gs')"
    using f by (simp add: generate_def)
  have ind: "generate (gs\<lparr>validMoves := vm, validMoveCount := n\<rparr>) x y a = Inr (candidates gs')"
    for vm n
    using generate_agree [of "gs\<lparr>validMoves := vm, validMoveCount := n\<rparr>" gs x y a] g by simp
  have "gs' = gs\<lparr>validMoves := validMoves gs', validMoveCount := validMoveCount gs'\<rparr>"
    using ap unfolding appends_moves_def by simp
  moreover have "0 \<le> validMoveCount gs'" "validMoveCount gs' \<le> MAX_VALID_MOVES"
    "\<forall>i. i < 0 \<or> MAX_VALID_MOVES \<le> i \<longrightarrow> validMoves gs' i = validMoves gs i"
    using ap unfolding appends_moves_def by simp_all
  ultimately show ?thesis
    using f ind by blast
qed

theorem FindValidMoves_bounded_witness:
  "in_bounds 3 4 \<and>
   (\<exists>gs'. FindValidMoves (idle_state centre_king_board PLAYER1) 3 4 False = Inr gs' \<and>
      validMoveCount gs' = MAX_VALID_MOVES \<and>
      (\<forall>i. i < 0 \<or> MAX_VALID_MOVES \<le> i \<longrightarrow>
         validMoves gs' i = validMoves (idle_state centre_king_board PLAYER1) i) \<and>
      generate ((idle_state centre_king_board PLAYER1)
                  \<lparr>validMoves := (\<lambda>i. (7, 7)), validMoveCount := 5\<rparr>) 3 4 False
        = Inr (candidates gs'))"
proof -
  let ?s = "idle_state centre_king_board PLAYER1"
  have inb: "in_bounds 3 4"
    by (simp add: in_bounds_iff)
  obtain g where g: "FindValidMoves ?s 3 4 False = Inr g"
    and frame: "\<forall>i. i < 0 \<or> MAX_VALID_MOVES \<le> i \<longrightarrow> validMoves g i = validMoves ?s i"
    and fresh: "\<forall>vm n. generate (?s\<lparr>validMoves := vm, validMoveCount := n\<rparr>) 3 4 False
                  = Inr (candidates g)"
    using FindValidMoves_bounded [OF inb, of ?s False] by blast
  obtain h where h: "FindValidMoves ?s 3 4 False = Inr h" "validMoveCount h = 12"
    using centre_king_full by blast
  have "validMoveCount g = MAX_VALID_MOVES"
    using g h by simp
  then show ?thesis
    using inb g frame fresh by blast
qed

text \<open>
  C10. For every click that moves the selected piece (both cells in range), the call
  returns, and every cell other than the destination keeps its \<open>player\<close> and \<open>isKing\<close>
  fields, while its \<open>type\<close> is either unchanged or \<open>NONE\<close>; the source cell, when it is
  not the destination, has \<open>type\<close> \<open>NONE\<close>. So the vacated cell and every captured cell
  still show their former owner and rank to a later read of those fields.
\<close>

theorem move_clears_type_only:
  assumes "move_accepted gs x y"
    and "in_bounds (selectedX gs) (selectedY gs)" and "in_bounds x y"
  shows "\<exists>gs'. HandleInput gs True x y = Inr gs' \<and>
           (\<forall>cx cy. (cx, cy) \<noteq> (x, y) \<longrightarrow>
              player (board gs' cy cx) = player (board gs cy cx) \<and>
              isKing (board gs' cy cx) = isKing (board gs cy cx) \<and>
              (type (board gs' cy cx) = type (board gs cy cx) \<or> type (board gs' cy cx) = NONE)) \<and>
           ((selectedX gs, selectedY gs) \<noteq> (x, y) \<longrightarrow>
              type (board gs' (selectedY gs) (selectedX gs)) = NONE)"
proof -
  have hi: "HandleInput gs True x y = apply_move gs x y"
    using HandleInput_move [OF assms(1,3)] .
  have core: "(\<forall>cx cy. (cx, cy) \<noteq> (x, y) \<longrightarrow>
              player (board gs3 cy cx) = player (board gs cy cx) \<and>
              isKing (board gs3 cy cx) = isKing (board gs cy cx) \<and>
              (type (board gs3 cy cx) = type (board gs cy cx) \<or> type (board gs3 cy cx) = NONE)) \<and>
           ((selectedX gs, selectedY gs) \<noteq> (x, y) \<longrightarrow>
              type (board gs3 (selectedY gs) (selectedX gs)) = NONE)"
    if rc: "resolve_capture gs x y = Inr (gs1, ic)"
      and pk: "PromoteToKing (move_piece gs1 x y) x y = Inr gs3" for gs1 ic gs3
  proof -
    have b3: "board gs3 cy cx = board (move_piece gs1 x y) cy cx" if "(cx, cy) \<noteq> (x, y)" for cx cy
      using PromoteToKing_frame(2) [OF pk that] .
    show ?thesis
      using resolve_capture_frame(2-6) [OF rc assms(2,3)]
      by (auto simp: b3 move_piece_board)
  qed
  show ?thesis
    using assms(2,3)
  proof (cases rule: apply_move_cases [of gs x y])
    case (promoted gs1 ic gs3)
    then show ?thesis
      using hi core [OF promoted(1,2)] by simp
  next
    case (chain gs1 ic gs3 gs4)
    then show ?thesis
      using hi core [OF chain(1,2)] FindValidMoves_fields(1) [OF chain(4)] by simp
  next
    case (ended gs1 ic gs3 gs4)
    then show ?thesis
      using hi core [OF ended(1,2)] FindValidMoves_fields(1) [OF ended(4)] by simp
  qed
qed


theorem move_clears_type_only_witness:
  "move_accepted promotion_state 3 7 \<and>
   in_bounds (selectedX promotion_state) (selectedY promotion_state) \<and> in_bounds 3 7 \<and>
   (\<exists>gs'. HandleInput promotion_state True 3 7 = Inr gs' \<and>
      type (board gs' 5 1) = NONE \<and> player (board gs' 5 1) = PLAYER1 \<and>
      isKing (board gs' 5 1) = isKing (board promotion_state 5 1) \<and>
      type (board gs' 6 2) = NONE \<and> player (board gs' 6 2) = PLAYER2 \<and>
      isKing (board gs' 6 2) = isKing (board promotion_state 6 2))"
proof -
  have inb: "in_bounds (selectedX promotion_state) (selectedY promotion_state)" "in_bounds 3 7"
    by (simp_all add: in_bounds_iff scenario_defs)
  show ?thesis
    using move_clears_type_only [OF promotion_state_accepts inb] promotion_state_click
      promotion_state_accepts inb
    by (auto simp: scenario_defs)
qed

end
